theory Spec2Isabelle
  imports Main "HOL-Library.Word" "HOL-Library.AList" "HOL-Library.Multiset"
begin

section \<open>The free-page manager of boltdb (freelist.go)\<close>

text \<open>
  Page ids and transaction ids are 64-bit unsigned integers (\<open>common.Pgid\<close>,
  \<open>common.Txid\<close>); their arithmetic wraps around.  Lengths and counts (Go \<open>int\<close>,
  and the \<open>uint64\<close> span sizes, which never exceed the number of ids held in memory)
  are natural numbers.
\<close>

type_synonym Pgid = "64 word"
type_synonym Txid = "64 word"

text \<open>The ways in which the Go code terminates abruptly (\<open>panic\<close>).\<close>

datatype panic =
    InvalidPageId      \<comment> \<open>free: "cannot free page 0 or 1"\<close>
  | DoubleFree         \<comment> \<open>free: "page %d already freed"\<close>
  | FreedBySameTx      \<comment> \<open>free, inside common.Verify: "freed page was allocated by the same transaction"\<close>
  | SelfFree           \<comment> \<open>rollback: "freed page was allocated by the same transaction"\<close>
  | MalformedPage      \<comment> \<open>read: "invalid freelist page"\<close>
  | IndexOutOfRange    \<comment> \<open>the Go runtime's panic on \<open>xs[i]\<close> with \<open>i \<ge> len(xs)\<close>\<close>
  | MergeTooShort      \<comment> \<open>copyall: the destination is shorter than the merged list\<close>

text \<open>A Go \<open>error\<close> value; \<open>nil\<close> is \<open>None\<close>.\<close>

type_synonym go_error = "string option"

text \<open>\<open>txPending\<close>: the ids a transaction has freed, and for each the transaction that
  allocated it.\<close>

record txPending =
  ids :: "Pgid list"
  alloctx :: "Txid list"

text \<open>
  The page header as far as the freelist uses it (\<open>common.Page\<close>: id, flags, count,
  overflow), followed by the 8-byte slots that lie behind the header.
\<close>

record page =
  pid :: Pgid
  flags :: "16 word"
  pcount :: "16 word"
  overflow :: "32 word"
  pdata :: "Pgid list"

text \<open>
  The \<open>freelist\<close> struct.  A Go map that the code ranges over is an association list
  with distinct keys (its order stands for the unspecified iteration order); a map that is
  only looked up is a partial function; \<open>map[Pgid]struct{}\<close> is a set where it is only
  tested for membership (\<open>cache\<close>) and a list of distinct ids where it is ranged over
  (\<open>pidSet\<close>).  The five function-valued fields are fixed by \<open>newFreelist\<close> to the
  hashmap implementation and are therefore not fields of the record.
\<close>

record freelist =
  fids :: "Pgid list"
  allocs :: "Pgid \<rightharpoonup> Txid"
  pending :: "(Txid \<times> txPending) list"
  cache :: "Pgid set"
  freemaps :: "(nat \<times> Pgid list) list"
  forwardMap :: "(Pgid \<times> nat) list"
  backwardMap :: "(Pgid \<times> nat) list"
  freePagesCount :: nat

definition newFreelist :: freelist where
  "newFreelist = \<lparr>fids = [], allocs = Map.empty, pending = [], cache = {},
     freemaps = [], forwardMap = [], backwardMap = [], freePagesCount = 0\<rparr>"

subsection \<open>free\<close>

text \<open>
  The loop of \<open>free\<close>: \<open>for id := p.Id(); id <= hi; id++\<close> over unsigned 64-bit ids.
  Every pass that does not panic puts one more id into the cache, which is how the
  recursion is seen to end even when \<open>hi\<close> is the largest id and \<open>id++\<close> wraps.
\<close>

function free_loop :: "Pgid \<Rightarrow> Pgid \<Rightarrow> Txid \<Rightarrow> txPending \<Rightarrow> Pgid set
    \<Rightarrow> panic + (txPending \<times> Pgid set)" where
  "free_loop i hi a txp c =
     (if i \<le> hi then
        (if i \<in> c then Inl DoubleFree
         else free_loop (i + 1) hi a
                (txp\<lparr>ids := ids txp @ [i], alloctx := alloctx txp @ [a]\<rparr>) (insert i c))
      else Inr (txp, c))"
  by pat_completeness auto
termination
proof (relation "measure (\<lambda>(i, hi, a, txp, c). card (- c))")
  show "wf (measure (\<lambda>(i, hi, a, txp, c). card (- c)))" by simp
next
  fix i hi :: Pgid and a :: Txid and txp :: txPending and c :: "Pgid set"
  assume "i \<notin> c"
  then have "- insert i c \<subset> - c" by auto
  then have "card (- insert i c) < card (- c)"
    by (intro psubset_card_mono) simp_all
  then show "((i + 1, hi, a, txp\<lparr>ids := ids txp @ [i], alloctx := alloctx txp @ [a]\<rparr>, insert i c),
              (i, hi, a, txp, c)) \<in> measure (\<lambda>(i, hi, a, txp, c). card (- c))"
    by simp
qed

declare free_loop.simps [simp del]

text \<open>
  \<open>free\<close>.  The first argument says whether \<open>common.Verify\<close> runs its check.

  Modelled from the spec: \<open>common.Verify\<close> is not among the sources; the spec describes
  it as an invariant check that may panic in debug builds, so it runs its argument when
  verification is enabled and does nothing otherwise.
\<close>

definition free :: "bool \<Rightarrow> Txid \<Rightarrow> page \<Rightarrow> freelist \<Rightarrow> panic + freelist" where
  "free verify txid p f =
     (if pid p \<le> 1 then Inl InvalidPageId
      else
        let txp = (case map_of (pending f) txid of
                     None \<Rightarrow> \<lparr>ids = [], alloctx = []\<rparr> | Some t \<Rightarrow> t);
            allocTxid = (case allocs f (pid p) of None \<Rightarrow> 0 | Some a \<Rightarrow> a)
        in if verify \<and> allocTxid = txid then Inl FreedBySameTx
           else
             (case free_loop (pid p) (pid p + ucast (overflow p)) allocTxid txp (cache f) of
                Inl e \<Rightarrow> Inl e
              | Inr (txp', c') \<Rightarrow>
                  Inr (f\<lparr>allocs := (allocs f)(pid p := None),
                         pending := AList.update txid txp' (pending f),
                         cache := c'\<rparr>)))"

subsection \<open>rollback\<close>

text \<open>The loop of \<open>rollback\<close> over \<open>txp.ids\<close>, reading \<open>txp.alloctx[i]\<close> beside it.\<close>

fun rollback_loop :: "Txid \<Rightarrow> Pgid list \<Rightarrow> Txid list \<Rightarrow> Pgid set \<Rightarrow> (Pgid \<rightharpoonup> Txid)
    \<Rightarrow> panic + (Pgid set \<times> (Pgid \<rightharpoonup> Txid))" where
  "rollback_loop txid [] ats c al = Inr (c, al)"
| "rollback_loop txid (pgid # ps) [] c al = Inl IndexOutOfRange"
| "rollback_loop txid (pgid # ps) (tx # ats) c al =
     (if tx = 0 then rollback_loop txid ps ats (c - {pgid}) al
      else if tx \<noteq> txid then rollback_loop txid ps ats (c - {pgid}) (al(pgid \<mapsto> tx))
      else Inl SelfFree)"

definition rollback :: "Txid \<Rightarrow> freelist \<Rightarrow> panic + freelist" where
  "rollback txid f =
     (case map_of (pending f) txid of
        None \<Rightarrow> Inr f
      | Some txp \<Rightarrow>
          (case rollback_loop txid (ids txp) (alloctx txp) (cache f) (allocs f) of
             Inl e \<Rightarrow> Inl e
           | Inr (c', al') \<Rightarrow>
               Inr (f\<lparr>cache := c', allocs := al',
                      pending := AList.delete txid (pending f)\<rparr>)))"


subsection \<open>The span index (hashmap implementation)\<close>

text \<open>The ids of the span that starts at \<open>start\<close> and holds \<open>sz\<close> pages.\<close>

definition span_ids :: "Pgid \<Rightarrow> nat \<Rightarrow> Pgid list" where
  "span_ids start sz = map (\<lambda>i. start + of_nat i) [0..<sz]"

text \<open>
  Modelled from the spec: \<open>addSpan\<close> and \<open>delSpan\<close> are not among the sources.  The
  spec's data model keeps a span \<open>(start, size)\<close> in three structures:
  \<open>start_to_size[start] = size\<close>, \<open>end_to_size[start + size - 1] = size\<close> and
  \<open>start \<in> spans_by_size[size]\<close>, with \<open>free_count\<close> the sum of the span sizes.
\<close>

definition addSpan :: "Pgid \<Rightarrow> nat \<Rightarrow> freelist \<Rightarrow> freelist" where
  "addSpan start sz f =
     f\<lparr>forwardMap := AList.update start sz (forwardMap f),
       backwardMap := AList.update (start + of_nat sz - 1) sz (backwardMap f),
       freemaps := AList.update sz
          (case map_of (freemaps f) sz of None \<Rightarrow> [start] | Some b \<Rightarrow> List.insert start b)
          (freemaps f),
       freePagesCount := freePagesCount f + sz\<rparr>"

definition delSpan :: "Pgid \<Rightarrow> nat \<Rightarrow> freelist \<Rightarrow> freelist" where
  "delSpan start sz f =
     f\<lparr>forwardMap := AList.delete start (forwardMap f),
       backwardMap := AList.delete (start + of_nat sz - 1) (backwardMap f),
       freemaps := AList.map_entry sz (removeAll start) (freemaps f),
       freePagesCount := freePagesCount f - sz\<rparr>"

text \<open>
  Modelled from the spec: \<open>hashmapFreeCount\<close> is not among the sources; \<open>free_count()\<close>
  is the number of pages currently in spans, which the manager caches in
  \<open>freePagesCount\<close>.
\<close>

definition hashmapFreeCount :: "freelist \<Rightarrow> nat" where
  "hashmapFreeCount f = freePagesCount f"

text \<open>
  Modelled from the spec: \<open>hashmapGetFreePageIDs\<close> is not among the sources;
  \<open>free_page_ids()\<close> is every id covered by some span, in ascending order.
\<close>

definition hashmapGetFreePageIDs :: "freelist \<Rightarrow> Pgid list" where
  "hashmapGetFreePageIDs f = sort (concat (map (\<lambda>(start, sz). span_ids start sz) (forwardMap f)))"

text \<open>
  Modelled from the spec: the merge algorithm of section 4.1 (\<open>hashmapMergeSpans\<close> is not
  among the sources).  For each id: look up the left neighbour in \<open>end_to_size[id - 1]\<close>
  and the right neighbour in \<open>start_to_size[id + 1]\<close>, remove them, insert the coalesced
  span, update \<open>cache\<close> and \<open>free_count\<close>.
\<close>

definition mergeWithExistingSpan :: "Pgid \<Rightarrow> freelist \<Rightarrow> freelist" where
  "mergeWithExistingSpan pgid f =
     (let prev = map_of (backwardMap f) (pgid - 1);
          next = map_of (forwardMap f) (pgid + 1);
          prevSize = (case prev of None \<Rightarrow> 0 | Some n \<Rightarrow> n);
          nextSize = (case next of None \<Rightarrow> 0 | Some n \<Rightarrow> n);
          newStart = pgid - of_nat prevSize;
          newSize = 1 + prevSize + nextSize;
          f1 = (case prev of None \<Rightarrow> f | Some n \<Rightarrow> delSpan newStart n f);
          f2 = (case next of None \<Rightarrow> f1 | Some n \<Rightarrow> delSpan (pgid + 1) n f1);
          f3 = addSpan newStart newSize f2
      in f3\<lparr>cache := insert pgid (cache f3)\<rparr>)"

definition hashmapMergeSpans :: "Pgid list \<Rightarrow> freelist \<Rightarrow> freelist" where
  "hashmapMergeSpans pgids f = fold mergeWithExistingSpan pgids f"

text \<open>
  Modelled from the spec: the allocation algorithm of section 4.1 (\<open>hashmapAllocate\<close> is
  not among the sources).  Take the smallest size \<open>m \<ge> n\<close> that has at least one span and
  in its bucket the span with the smallest start id; remove it from the three structures,
  reinsert the remainder \<open>(start + n, m - n)\<close> if \<open>m > n\<close>, take the ids out of
  \<open>cache\<close>, record \<open>allocs[start] = tx\<close> and return \<open>start\<close>; return 0, changing
  nothing, if no span of size \<open>\<ge> n\<close> exists.
\<close>

definition hashmapAllocate :: "Txid \<Rightarrow> nat \<Rightarrow> freelist \<Rightarrow> Pgid \<times> freelist" where
  "hashmapAllocate txid n f =
     (case sort (map fst (filter (\<lambda>(m, b). n \<le> m \<and> b \<noteq> []) (freemaps f))) of
        [] \<Rightarrow> (0, f)
      | m # _ \<Rightarrow>
          (case map_of (freemaps f) m of
             None \<Rightarrow> (0, f)
           | Some [] \<Rightarrow> (0, f)
           | Some (b # bs) \<Rightarrow>
               (let start = fold min bs b;
                    f1 = delSpan start m f;
                    f2 = (if n < m then addSpan (start + of_nat n) (m - n) f1 else f1)
                in (start, f2\<lparr>cache := cache f2 - set (span_ids start n),
                               allocs := (allocs f2)(start \<mapsto> txid)\<rparr>))))"

subsection \<open>Counting and copying\<close>

definition pending_count :: "freelist \<Rightarrow> nat" where
  "pending_count f = fold (\<lambda>(t, txp) count. count + length (ids txp)) (pending f) 0"

definition count :: "freelist \<Rightarrow> nat" where
  "count f = hashmapFreeCount f + pending_count f"

text \<open>
  Modelled from the spec: the constants of package \<open>common\<close> are not among the sources.
  The page header holds id (8 bytes), flags (2), count (2) and overflow (4); a page id
  takes 8 bytes; \<open>FreelistPageFlag\<close> marks the page kind.
\<close>

definition PageHeaderSize :: nat where
  "PageHeaderSize = 16"

definition PgidSize :: nat where
  "PgidSize = 8"

definition FreelistPageFlag :: "16 word" where
  "FreelistPageFlag = 0x10"

definition freelist_size :: "freelist \<Rightarrow> nat" where
  "freelist_size f = (let n = count f; n' = (if n \<ge> 0xFFFF then n + 1 else n)
             in PageHeaderSize + PgidSize * n')"

text \<open>
  Modelled from the spec: \<open>common.Mergepgids\<close> is not among the sources; it writes the
  sorted merge of two sorted lists into \<open>dst\<close>, which must be long enough to hold it.
\<close>

fun mergepgids :: "Pgid list \<Rightarrow> Pgid list \<Rightarrow> Pgid list" where
  "mergepgids [] b = b"
| "mergepgids a [] = a"
| "mergepgids (x # a) (y # b) =
     (if x \<le> y then x # mergepgids a (y # b) else y # mergepgids (x # a) b)"

definition Mergepgids :: "Pgid list \<Rightarrow> Pgid list \<Rightarrow> Pgid list \<Rightarrow> panic + Pgid list" where
  "Mergepgids dst a b =
     (let m = mergepgids a b
      in if length dst < length m then Inl MergeTooShort
         else Inr (m @ drop (length m) dst))"

definition copyall :: "Pgid list \<Rightarrow> freelist \<Rightarrow> panic + Pgid list" where
  "copyall dst f =
     (let m = sort (concat (map (\<lambda>(t, txp). ids txp) (pending f)))
      in Mergepgids dst (hashmapGetFreePageIDs f) m)"

subsection \<open>release\<close>

text \<open>The inner loop over the open readers, with its \<open>break\<close>.\<close>

fun safe2Release :: "Txid list \<Rightarrow> Txid \<Rightarrow> Txid \<Rightarrow> bool" where
  "safe2Release [] atxid ftxid = True"
| "safe2Release (rtxid # rtxids) atxid ftxid =
     (if atxid \<le> rtxid \<and> rtxid < ftxid then False else safe2Release rtxids atxid ftxid)"

text \<open>
  The loop over one bucket: \<open>for i := 0; i < len(txp.ids); i++\<close>.  A released entry is
  overwritten by the last one, both slices lose their last element, and \<open>i--\<close> followed by
  the loop's \<open>i++\<close> leaves \<open>i\<close> where it is.
\<close>

function release_loop :: "Txid list \<Rightarrow> Txid \<Rightarrow> nat \<Rightarrow> Pgid list \<Rightarrow> Txid list \<Rightarrow> Pgid list
    \<Rightarrow> panic + (Pgid list \<times> Txid list \<times> Pgid list)" where
  "release_loop rtxids ftxid i tids tatx m =
     (if i < length tids then
        (if length tatx \<le> i then Inl IndexOutOfRange
         else if safe2Release rtxids (tatx ! i) ftxid then
           release_loop rtxids ftxid i
             (butlast (tids[i := last tids])) (butlast (tatx[i := last tatx])) (m @ [tids ! i])
         else release_loop rtxids ftxid (i + 1) tids tatx m)
      else Inr (tids, tatx, m))"
  by pat_completeness auto
termination
  by (relation "measure (\<lambda>(rtxids, ftxid, i, tids, tatx, m). length tids - i)") auto

declare release_loop.simps [simp del]

text \<open>The outer loop over the pending table; a bucket left empty is deleted.\<close>

fun release_buckets :: "Txid list \<Rightarrow> (Txid \<times> txPending) list \<Rightarrow> Pgid list
    \<Rightarrow> panic + ((Txid \<times> txPending) list \<times> Pgid list)" where
  "release_buckets rtxids [] m = Inr ([], m)"
| "release_buckets rtxids ((ftxid, txp) # rest) m =
     (case release_loop rtxids ftxid 0 (ids txp) (alloctx txp) m of
        Inl e \<Rightarrow> Inl e
      | Inr (tids, tatx, m') \<Rightarrow>
          (case release_buckets rtxids rest m' of
             Inl e \<Rightarrow> Inl e
           | Inr (rest', m'') \<Rightarrow>
               Inr (if length tids = 0 then rest'
                    else (ftxid, txp\<lparr>ids := tids, alloctx := tatx\<rparr>) # rest', m'')))"

definition release :: "Txid list \<Rightarrow> freelist \<Rightarrow> panic + freelist" where
  "release rtxids f =
     (case release_buckets rtxids (pending f) [] of
        Inl e \<Rightarrow> Inl e
      | Inr (pending', m) \<Rightarrow> Inr (hashmapMergeSpans m (f\<lparr>pending := pending'\<rparr>)))"

subsection \<open>Reading and writing the freelist page\<close>

definition freed :: "freelist \<Rightarrow> Pgid \<Rightarrow> bool" where
  "freed f pgId = (pgId \<in> cache f)"

definition reindex :: "freelist \<Rightarrow> freelist" where
  "reindex f =
     f\<lparr>cache := set (hashmapGetFreePageIDs f) \<union>
                 set (concat (map (\<lambda>(t, txp). ids txp) (pending f)))\<rparr>"

text \<open>
  Modelled from the spec: \<open>hashmapReadIDs\<close> is not among the sources.  The given ids
  are installed into the span index as spans, one for each run of consecutive ids, in place
  of what the index held; then the cache is rebuilt (\<open>reindex\<close>, the one function of the
  sources that rebuilds it).
\<close>

fun runs :: "Pgid \<Rightarrow> nat \<Rightarrow> Pgid list \<Rightarrow> (Pgid \<times> nat) list" where
  "runs start sz [] = [(start, sz)]"
| "runs start sz (x # xs) =
     (if x = start + of_nat sz then runs start (sz + 1) xs
      else (start, sz) # runs x 1 xs)"

definition init :: "Pgid list \<Rightarrow> freelist \<Rightarrow> freelist" where
  "init pgids f =
     (let f0 = f\<lparr>freemaps := [], forwardMap := [], backwardMap := [], freePagesCount := 0\<rparr>
      in case pgids of
           [] \<Rightarrow> f0
         | x # xs \<Rightarrow> fold (\<lambda>(start, sz). addSpan start sz) (runs x 1 xs) f0)"

definition hashmapReadIDs :: "Pgid list \<Rightarrow> freelist \<Rightarrow> freelist" where
  "hashmapReadIDs pgids f = reindex (init pgids f)"

text \<open>
  Modelled from the spec: \<open>Page.IsFreelistPage\<close> and \<open>Page.FreelistPageIds\<close> are not
  among the sources.  The page is a freelist page when its kind flag is
  \<open>FreelistPageFlag\<close>.  The counting convention: a header count below \<open>0xFFFF\<close> is the
  number of ids, which fill the first slots; the header count \<open>0xFFFF\<close> says that the
  first slot holds the number of ids and the ids follow it.
\<close>

definition IsFreelistPage :: "page \<Rightarrow> bool" where
  "IsFreelistPage p = (flags p = FreelistPageFlag)"

definition FreelistPageCount :: "page \<Rightarrow> nat \<times> nat" where
  "FreelistPageCount p =
     (if pcount p = 0xFFFF
      then (1, case pdata p of [] \<Rightarrow> 0 | c # _ \<Rightarrow> unat c)
      else (0, unat (pcount p)))"

definition FreelistPageIds :: "page \<Rightarrow> Pgid list" where
  "FreelistPageIds p = (case FreelistPageCount p of (idx, cnt) \<Rightarrow> take cnt (drop idx (pdata p)))"

definition read :: "page \<Rightarrow> freelist \<Rightarrow> panic + freelist" where
  "read p f =
     (if \<not> IsFreelistPage p then Inl MalformedPage
      else
        let pids = FreelistPageIds p
        in if length pids = 0 then Inr (f\<lparr>fids := []\<rparr>)
           else Inr (hashmapReadIDs (sort pids) f))"

text \<open>
  \<open>unsafe.Slice(data, k)\<close>: the \<open>k\<close> slots behind the header.  The page is expected to
  own them; slots past the end of \<open>pdata\<close> stand for memory that is not the page's, read
  as zero here.
\<close>

definition slots :: "page \<Rightarrow> nat \<Rightarrow> Pgid list" where
  "slots p k = take k (pdata p) @ replicate (k - length (pdata p)) 0"

text \<open>
  \<open>write\<close> (here \<open>freelist_write\<close>) returns the manager along with the page and the Go \<open>error\<close>, so that what it
  leaves of the manager can be stated.
\<close>

definition freelist_write :: "page \<Rightarrow> freelist \<Rightarrow> panic + (freelist \<times> page \<times> go_error)" where
  "freelist_write p f =
     (let p1 = p\<lparr>flags := FreelistPageFlag\<rparr>;
          l = count f
      in if l = 0 then Inr (f, p1\<lparr>pcount := of_nat l\<rparr>, None)
         else if l < 0xFFFF then
           (case copyall (slots p1 l) f of
              Inl e \<Rightarrow> Inl e
            | Inr dst \<Rightarrow>
                Inr (f, p1\<lparr>pcount := of_nat l, pdata := dst @ drop l (pdata p1)\<rparr>, None))
         else
           (case copyall (drop 1 (slots p1 (l + 1))) f of
              Inl e \<Rightarrow> Inl e
            | Inr dst \<Rightarrow>
                Inr (f, p1\<lparr>pcount := 0xFFFF,
                         pdata := of_nat l # dst @ drop (l + 1) (pdata p1)\<rparr>, None)))"

text \<open>\<open>reload\<close> and \<open>noSyncReload\<close>: the pending ids are filtered out of the free ids.\<close>

definition pcache :: "freelist \<Rightarrow> Pgid set" where
  "pcache f = set (concat (map (\<lambda>(t, txp). ids txp) (pending f)))"

definition reload :: "page \<Rightarrow> freelist \<Rightarrow> panic + freelist" where
  "reload p f =
     (case read p f of
        Inl e \<Rightarrow> Inl e
      | Inr f1 \<Rightarrow>
          Inr (hashmapReadIDs (filter (\<lambda>pgid. pgid \<notin> pcache f1) (hashmapGetFreePageIDs f1)) f1))"

definition noSyncReload :: "Pgid list \<Rightarrow> freelist \<Rightarrow> freelist" where
  "noSyncReload pgids f = hashmapReadIDs (filter (\<lambda>pgid. pgid \<notin> pcache f) pgids) f"

subsection \<open>Observations and invariants\<close>

text \<open>The ids of all pending buckets, and the list that \<open>copyall\<close> produces: the sorted
  merge of the free ids and the sorted pending ids.\<close>

definition pending_ids :: "freelist \<Rightarrow> Pgid list" where
  "pending_ids f = concat (map (\<lambda>(t, txp). ids txp) (pending f))"

definition all_ids :: "freelist \<Rightarrow> Pgid list" where
  "all_ids f = mergepgids (hashmapGetFreePageIDs f) (sort (pending_ids f))"

text \<open>The spec's invariant that \<open>free_count\<close> equals the sum of all span sizes.\<close>

definition count_ok :: "freelist \<Rightarrow> bool" where
  "count_ok f = (freePagesCount f = sum_list (map snd (forwardMap f)))"

text \<open>The ids covered by the spans of a start-to-size map.\<close>

definition cover :: "(Pgid \<rightharpoonup> nat) \<Rightarrow> Pgid set" where
  "cover m = {i. \<exists>s n. m s = Some n \<and> i \<in> set (span_ids s n)}"

text \<open>The spec's invariant that no two spans overlap or are adjacent: every span is
  non-empty and lies within the 64-bit ids, and of two different spans one ends at least
  two ids before the other begins.\<close>

definition coalesced :: "(Pgid \<times> nat) list \<Rightarrow> bool" where
  "coalesced sp =
     (\<forall>(s, n) \<in> set sp. 0 < n \<and> unat s + n \<le> 2 ^ 64 \<and>
        (\<forall>(s', n') \<in> set sp. (s, n) = (s', n') \<or> unat s + n < unat s' \<or> unat s' + n' < unat s))"

text \<open>
  The spec's invariant on the span structures: every span of the start-to-size map has its
  entry in the end-to-size map and conversely (the maps being association lists with
  distinct keys); \<open>consistent\<close> says the same of the two maps as partial functions.
\<close>

definition spans_ok :: "freelist \<Rightarrow> bool" where
  "spans_ok f =
     (distinct (map fst (forwardMap f)) \<and> distinct (map fst (backwardMap f)) \<and>
      (\<forall>(s, n) \<in> set (forwardMap f). map_of (backwardMap f) (s + of_nat n - 1) = Some n) \<and>
      (\<forall>(e, n) \<in> set (backwardMap f). map_of (forwardMap f) (e - of_nat n + 1) = Some n))"

definition consistent :: "(Pgid \<rightharpoonup> nat) \<Rightarrow> (Pgid \<rightharpoonup> nat) \<Rightarrow> bool" where
  "consistent F B =
     ((\<forall>s n. F s = Some n \<longrightarrow> B (s + of_nat n - 1) = Some n) \<and>
      (\<forall>e n. B e = Some n \<longrightarrow> F (e - of_nat n + 1) = Some n))"

text \<open>
  The spec's words for the visibility of a pending entry: a page allocated by \<open>a\<close> and freed
  by \<open>f\<close> is visible to the open reader \<open>r\<close> when \<open>a \<le> r < f\<close>.
\<close>

definition visible :: "Txid list \<Rightarrow> Txid \<Rightarrow> Txid \<Rightarrow> bool" where
  "visible rtxids atxid ftxid = (\<exists>r \<in> set rtxids. atxid \<le> r \<and> r < ftxid)"

text \<open>The entries \<open>(id, a)\<close> of the bucket of a transaction, none if it has no bucket.\<close>

definition bucket_entries :: "(Txid \<times> txPending) list \<Rightarrow> Txid \<Rightarrow> (Pgid \<times> Txid) list" where
  "bucket_entries al t =
     (case map_of al t of None \<Rightarrow> [] | Some txp \<Rightarrow> zip (ids txp) (alloctx txp))"

text \<open>
  The spec's invariants on the pending table: one bucket for each transaction, an allocator
  recorded for each id, and no id twice in pending or both pending and free.
\<close>

definition pending_ok :: "freelist \<Rightarrow> bool" where
  "pending_ok f =
     (distinct (map fst (pending f)) \<and>
      (\<forall>(t, txp) \<in> set (pending f). length (alloctx txp) = length (ids txp)) \<and>
      distinct (pending_ids f) \<and>
      set (pending_ids f) \<inter> set (hashmapGetFreePageIDs f) = {})"

text \<open>
  The bucket of a size, and the spec's invariant that ties the size buckets to the
  start-to-size map: a start id is in the bucket of size \<open>m\<close> exactly when the map gives it
  the size \<open>m\<close>.
\<close>

definition size_bucket :: "freelist \<Rightarrow> nat \<Rightarrow> Pgid list" where
  "size_bucket f m = (case map_of (freemaps f) m of None \<Rightarrow> [] | Some b \<Rightarrow> b)"

definition freemaps_ok :: "freelist \<Rightarrow> bool" where
  "freemaps_ok f =
     (distinct (map fst (freemaps f)) \<and>
      (\<forall>(m, b) \<in> set (freemaps f). \<forall>s \<in> set b. map_of (forwardMap f) s = Some m) \<and>
      (\<forall>(s, m) \<in> set (forwardMap f). s \<in> set (size_bucket f m)))"

section \<open>Example states\<close>

text \<open>Concrete pages and manager states on which the properties below are evaluated.\<close>

definition ex_page10 :: page where
  "ex_page10 = \<lparr>pid = 10, flags = 0, pcount = 0, overflow = 1, pdata = []\<rparr>"

definition ex_page_top :: page where
  "ex_page_top = \<lparr>pid = 0xFFFFFFFFFFFFFFFF, flags = 0, pcount = 0, overflow = 0, pdata = []\<rparr>"

definition ex_allocs10 :: freelist where
  "ex_allocs10 = newFreelist\<lparr>allocs := [10 \<mapsto> 7]\<rparr>"

definition ex_zero :: freelist where
  "ex_zero = newFreelist\<lparr>pending := [(0, \<lparr>ids = [5], alloctx = [0]\<rparr>)], cache := {5}\<rparr>"

definition ex_empty_bucket :: freelist where
  "ex_empty_bucket = newFreelist\<lparr>pending := [(7, \<lparr>ids = [], alloctx = []\<rparr>)]\<rparr>"

definition ex_rollback :: freelist where
  "ex_rollback = newFreelist\<lparr>pending := [(7, \<lparr>ids = [50, 51], alloctx = [3, 0]\<rparr>)],
     cache := {50, 51}\<rparr>"

definition ex_state :: freelist where
  "ex_state = \<lparr>fids = [], allocs = Map.empty,
     pending = [(8, \<lparr>ids = [11, 10], alloctx = [7, 7]\<rparr>)], cache = {10, 11, 12, 13, 14},
     freemaps = [(3, [12])], forwardMap = [(12, 3)], backwardMap = [(14, 3)],
     freePagesCount = 3\<rparr>"

definition ex_big :: freelist where
  "ex_big = newFreelist\<lparr>freemaps := [(65535, [2])], forwardMap := [(2, 65535)],
     backwardMap := [(65536, 65535)], freePagesCount := 65535\<rparr>"

definition ex_buf :: page where
  "ex_buf = \<lparr>pid = 4, flags = 0, pcount = 0, overflow = 0, pdata = [0, 0, 0, 0, 0, 0, 0, 0]\<rparr>"

definition ex_span5 :: freelist where
  "ex_span5 = newFreelist\<lparr>freemaps := [(1, [5])], forwardMap := [(5, 1)],
     backwardMap := [(5, 1)], freePagesCount := 1, cache := {5}\<rparr>"

definition ex_pending9 :: freelist where
  "ex_pending9 = newFreelist\<lparr>pending := [(7, \<lparr>ids = [9], alloctx = [0]\<rparr>)], cache := {9}\<rparr>"

definition ex_empty_page :: page where
  "ex_empty_page = \<lparr>pid = 3, flags = 0x10, pcount = 0, overflow = 0, pdata = []\<rparr>"

definition ex_page5 :: page where
  "ex_page5 = \<lparr>pid = 3, flags = 0x10, pcount = 1, overflow = 0, pdata = [5]\<rparr>"

definition ex_page_wrap :: page where
  "ex_page_wrap = \<lparr>pid = 0xFFFFFFFFFFFFFFFE, flags = 0, pcount = 0, overflow = 5, pdata = []\<rparr>"

definition ex_page_dup :: page where
  "ex_page_dup = \<lparr>pid = 3, flags = 0x10, pcount = 4, overflow = 0, pdata = [5, 6, 6, 7]\<rparr>"

definition ex_release :: freelist where
  "ex_release = newFreelist\<lparr>pending := [(10, \<lparr>ids = [100, 101], alloctx = [3, 8]\<rparr>)],
     cache := {100, 101}\<rparr>"

definition ex_alloc :: freelist where
  "ex_alloc = \<lparr>fids = [], allocs = Map.empty, pending = [],
     cache = {100, 101, 200, 201, 300, 301, 302, 303},
     freemaps = [(2, [200, 100]), (4, [300])],
     forwardMap = [(100, 2), (200, 2), (300, 4)],
     backwardMap = [(101, 2), (201, 2), (303, 4)],
     freePagesCount = 8\<rparr>"

section \<open>Properties\<close>

subsection \<open>free\<close>

lemma free_loop_top: "free_loop i (- 1) a txp c \<noteq> Inr r"
proof (induction i "- 1 :: Pgid" a txp c rule: free_loop.induct)
  case (1 i a txp c)
  show ?case
  proof (cases "i \<in> c")
    case True
    then show ?thesis by (subst free_loop.simps) simp
  next
    case False
    with 1 show ?thesis by (subst free_loop.simps) simp
  qed
qed

lemma unat_succ: "(i::Pgid) \<noteq> - 1 \<Longrightarrow> unat (i + 1) = Suc (unat i)"
  by (simp add: add.commute add_eq_0_iff unatSuc)

lemma word_range_step: "(i::Pgid) \<le> hi \<Longrightarrow> hi \<noteq> - 1 \<Longrightarrow> {i .. hi} = insert i {i + 1 .. hi}"
proof -
  assume a: "i \<le> hi" "hi \<noteq> - 1"
  then have "i \<noteq> - 1" by (metis word_order.extremum_uniqueI)
  then have ui: "unat (i + 1) = Suc (unat i)" by (rule unat_succ)
  show ?thesis
  proof (rule set_eqI)
    fix x :: Pgid
    have e: "unat x = unat i \<longleftrightarrow> x = i" by (simp add: word_unat_eq_iff)
    have l: "x \<in> {i .. hi} \<longleftrightarrow> unat i \<le> unat x \<and> unat x \<le> unat hi"
      by (simp add: word_le_nat_alt)
    have r: "x \<in> insert i {i + 1 .. hi} \<longleftrightarrow>
          x = i \<or> (Suc (unat i) \<le> unat x \<and> unat x \<le> unat hi)"
      by (simp add: word_le_nat_alt ui)
    have ih: "unat i \<le> unat hi" using a(1) by (simp add: word_le_nat_alt)
    show "x \<in> {i .. hi} \<longleftrightarrow> x \<in> insert i {i + 1 .. hi}"
      unfolding l r using e ih by arith
  qed
qed

lemma free_loop_Inr:
  "free_loop i hi a txp c = Inr (txp', c') \<Longrightarrow>
     ids txp' = ids txp @ map of_nat [unat i ..< Suc (unat hi)] \<and>
     alloctx txp' = alloctx txp @ replicate (Suc (unat hi) - unat i) a \<and>
     c' = c \<union> {i .. hi} \<and> c \<inter> {i .. hi} = {}"
proof (induction i hi a txp c rule: free_loop.induct)
  case (1 i hi a txp c)
  show ?case
  proof (cases "i \<le> hi")
    case False
    with "1.prems" have "txp' = txp" "c' = c"
      by (simp_all add: free_loop.simps [of i hi])
    moreover from False have "unat hi < unat i" by (simp add: word_less_nat_alt not_le)
    moreover from False have "{i .. hi} = {}" by simp
    ultimately show ?thesis by simp
  next
    case True
    from "1.prems" have top: "hi \<noteq> - 1" using free_loop_top by blast
    from "1.prems" True have nin: "i \<notin> c"
      by (auto simp: free_loop.simps [of i hi])
    from "1.prems" True nin have rec:
      "free_loop (i + 1) hi a (txp\<lparr>ids := ids txp @ [i], alloctx := alloctx txp @ [a]\<rparr>)
         (insert i c) = Inr (txp', c')"
      by (simp add: free_loop.simps [of i hi])
    note IH = "1.IH" [OF True nin rec]
    from True top have "i \<noteq> - 1" by (metis word_order.extremum_uniqueI)
    then have ui: "unat (i + 1) = Suc (unat i)" by (rule unat_succ)
    from True have le: "unat i \<le> unat hi" by (simp add: word_le_nat_alt)
    note set_eq = word_range_step [OF True top]
    have l1: "[unat i ..< Suc (unat hi)] = unat i # [Suc (unat i) ..< Suc (unat hi)]"
      using le by (simp add: upt_conv_Cons del: upt_Suc)
    have l2: "replicate (Suc (unat hi) - unat i) a = a # replicate (Suc (unat hi) - Suc (unat i)) a"
      using le by (simp add: Suc_diff_le)
    have c1: "ids txp' = ids txp @ map of_nat [unat i ..< Suc (unat hi)]"
      using IH by (simp add: l1 ui del: upt_Suc)
    have c2: "alloctx txp' = alloctx txp @ replicate (Suc (unat hi) - unat i) a"
      using IH by (simp add: l2 ui del: upt_Suc)
    have c3: "c' = c \<union> {i .. hi}"
      using IH by (simp add: set_eq)
    have c4: "c \<inter> {i .. hi} = {}"
      using IH nin unfolding set_eq by blast
    show ?thesis using c1 c2 c3 c4 by blast
  qed
qed

lemma free_loop_Inl: "free_loop i hi a txp c = Inl e \<Longrightarrow> e = DoubleFree"
proof (induction i hi a txp c rule: free_loop.induct)
  case (1 i hi a txp c)
  show ?case
  proof (cases "i \<le> hi \<and> i \<notin> c")
    case True
    with "1.prems" have "free_loop (i + 1) hi a
        (txp\<lparr>ids := ids txp @ [i], alloctx := alloctx txp @ [a]\<rparr>) (insert i c) = Inl e"
      by (simp add: free_loop.simps [of i hi])
    with True "1.IH" show ?thesis by blast
  next
    case False
    with "1.prems" show ?thesis
      by (auto simp: free_loop.simps [of i hi] split: if_splits)
  qed
qed

lemma free_loop_succeeds:
  "hi \<noteq> - 1 \<Longrightarrow> c \<inter> {i .. hi} = {} \<Longrightarrow> \<exists>r. free_loop i hi a txp c = Inr r"
proof (induction i hi a txp c rule: free_loop.induct)
  case (1 i hi a txp c)
  show ?case
  proof (cases "i \<le> hi")
    case False
    then show ?thesis by (simp add: free_loop.simps [of i hi])
  next
    case True
    note set_eq = word_range_step [OF True "1.prems"(1)]
    from "1.prems"(2) have nin: "i \<notin> c" unfolding set_eq by blast
    from True "1.prems"(1) have "i \<noteq> - 1" by (metis word_order.extremum_uniqueI)
    then have ui: "unat (i + 1) = Suc (unat i)" by (rule unat_succ)
    have "i \<notin> {i + 1 .. hi}" using ui by (simp add: word_le_nat_alt)
    with "1.prems"(2) have "insert i c \<inter> {i + 1 .. hi} = {}" unfolding set_eq by blast
    from "1.IH" [OF True nin "1.prems"(1) this] obtain r where
      "free_loop (i + 1) hi a (txp\<lparr>ids := ids txp @ [i], alloctx := alloctx txp @ [a]\<rparr>)
         (insert i c) = Inr r" by blast
    with True nin show ?thesis by (simp add: free_loop.simps [of i hi])
  qed
qed

lemma set_word_range: "set (map of_nat [unat i ..< Suc (unat hi)]) = {i .. hi :: Pgid}"
proof (rule set_eqI)
  fix x :: Pgid
  show "x \<in> set (map of_nat [unat i ..< Suc (unat hi)]) \<longleftrightarrow> x \<in> {i .. hi}"
  proof
    assume "x \<in> set (map of_nat [unat i ..< Suc (unat hi)])"
    then obtain n where n: "x = of_nat n" "unat i \<le> n" "n \<le> unat hi" by auto
    have "unat hi < 2 ^ 64" using unsigned_less [of hi, where ?'a = nat] by simp
    with n(3) have "n < 2 ^ 64" by simp
    then have "unat (of_nat n :: Pgid) = n" by (simp add: unat_of_nat)
    with n show "x \<in> {i .. hi}" by (simp add: word_le_nat_alt)
  next
    assume "x \<in> {i .. hi}"
    then have "unat i \<le> unat x" "unat x \<le> unat hi" by (simp_all add: word_le_nat_alt)
    then have "unat x \<in> set [unat i ..< Suc (unat hi)]" by (simp del: upt_Suc)
    then have "of_nat (unat x) \<in> (of_nat ` set [unat i ..< Suc (unat hi)] :: Pgid set)"
      by (rule imageI)
    then show "x \<in> set (map of_nat [unat i ..< Suc (unat hi)])" by simp
  qed
qed

lemma free_Inr_effect:
  assumes "free verify txid p f = Inr f'"
  shows "let a = (case allocs f (pid p) of None \<Rightarrow> 0 | Some t \<Rightarrow> t);
             old = (case map_of (pending f) txid of
                      None \<Rightarrow> \<lparr>ids = [], alloctx = []\<rparr> | Some t \<Rightarrow> t);
             new = map of_nat [unat (pid p) ..< Suc (unat (pid p + ucast (overflow p)))]
         in allocs f' = (allocs f)(pid p := None) \<and>
            map_of (pending f') txid =
              Some \<lparr>ids = ids old @ new, alloctx = alloctx old @ replicate (length new) a\<rparr> \<and>
            (\<forall>t. t \<noteq> txid \<longrightarrow> map_of (pending f') t = map_of (pending f) t) \<and>
            set new = {pid p .. pid p + ucast (overflow p)} \<and>
            cache f' = cache f \<union> set new"
proof -
  define a where "a = (case allocs f (pid p) of None \<Rightarrow> 0 | Some t \<Rightarrow> t)"
  define old where "old = (case map_of (pending f) txid of
                      None \<Rightarrow> \<lparr>ids = [], alloctx = []\<rparr> | Some t \<Rightarrow> t)"
  define hi where "hi = pid p + ucast (overflow p)"
  from assms obtain txp' c' where
    loop: "free_loop (pid p) hi a old (cache f) = Inr (txp', c')" and
    f': "f' = f\<lparr>allocs := (allocs f)(pid p := None),
               pending := AList.update txid txp' (pending f), cache := c'\<rparr>"
    by (auto simp: free_def Let_def a_def old_def hi_def split: if_splits sum.splits)
  note L = free_loop_Inr [OF loop]
  have txp': "txp' = \<lparr>ids = ids old @ map of_nat [unat (pid p) ..< Suc (unat hi)],
      alloctx = alloctx old @ replicate (length (map of_nat [unat (pid p) ..< Suc (unat hi)] :: Pgid list)) a\<rparr>"
    using L by (cases txp') (simp del: upt_Suc)
  have 1: "allocs f' = (allocs f)(pid p := None)" by (simp add: f')
  have 2: "map_of (pending f') txid = Some txp'" by (simp add: f' update_conv')
  have 3: "\<forall>t. t \<noteq> txid \<longrightarrow> map_of (pending f') t = map_of (pending f) t"
    by (simp add: f' update_conv')
  have 4: "set (map of_nat [unat (pid p) ..< Suc (unat hi)]) = {pid p .. hi}"
    by (rule set_word_range)
  have 5: "cache f' = cache f \<union> set (map of_nat [unat (pid p) ..< Suc (unat hi)] :: Pgid list)"
    unfolding 4 using L by (simp add: f')
  show ?thesis
    unfolding Let_def a_def [symmetric] old_def [symmetric] hi_def [symmetric]
    using 1 2 3 4 5 unfolding txp' by blast
qed

lemma unat_overflow: "unat (ucast (ov :: 32 word) :: Pgid) = unat ov"
proof -
  have "unat ov < 2 ^ 32" using unsigned_less [of ov, where ?'a = nat] by simp
  then have "unat ov < 2 ^ 64" by (rule less_trans) simp
  then show ?thesis by (simp add: unsigned_ucast_eq take_bit_nat_eq_self)
qed

lemma no_wrap_hi:
  fixes i :: Pgid and ov :: "32 word"
  assumes "unat i + unat ov < 2 ^ 64"
  shows "unat (i + ucast ov) = unat i + unat ov"
  using assms by (simp add: unat_word_ariths unat_overflow)

lemma range_list:
  fixes i :: Pgid
  shows "map of_nat [unat i ..< Suc (unat i + n)] = map (\<lambda>k. i + of_nat k) [0 ..< Suc n]"
proof -
  have "[unat i ..< Suc (unat i + n)] = map (\<lambda>k. k + unat i) [0 ..< Suc n]"
    by (simp only: map_add_upt) (simp add: add.commute)
  then show ?thesis by (simp add: comp_def del: upt_Suc)
qed

text \<open>
  Claim C3, as amended.  When \<open>free\<close> returns, for a page whose range
  \<open>page.id .. page.id + page.overflow\<close> does not run past the largest 64-bit id, with
  \<open>a\<close> the allocating transaction recorded for \<open>page.id\<close> (0 if there was none):
  \<open>page.id\<close> is gone from \<open>allocs\<close>; the entries \<open>(id, a)\<close> for the
  \<open>page.overflow + 1\<close> ids \<open>page.id, page.id + 1, \<dots>, page.id + page.overflow\<close>, in
  this order and all with the same \<open>a\<close>, are appended to \<open>pending[tx]\<close>, the other
  buckets being untouched; and these ids are added to \<open>cache\<close>.
\<close>
theorem free_appends_pending:
  assumes "free verify txid p f = Inr f'"
    and "unat (pid p) + unat (overflow p) < 2 ^ 64"
  shows "let a = (case allocs f (pid p) of None \<Rightarrow> 0 | Some t \<Rightarrow> t);
             old = (case map_of (pending f) txid of
                      None \<Rightarrow> \<lparr>ids = [], alloctx = []\<rparr> | Some t \<Rightarrow> t);
             new = map (\<lambda>k. pid p + of_nat k) [0 ..< Suc (unat (overflow p))]
         in allocs f' = (allocs f)(pid p := None) \<and>
            map_of (pending f') txid =
              Some \<lparr>ids = ids old @ new,
                    alloctx = alloctx old @ replicate (Suc (unat (overflow p))) a\<rparr> \<and>
            (\<forall>t. t \<noteq> txid \<longrightarrow> map_of (pending f') t = map_of (pending f) t) \<and>
            cache f' = cache f \<union> set new"
proof -
  have l: "map of_nat [unat (pid p) ..< Suc (unat (pid p + ucast (overflow p)))] =
      map (\<lambda>k. pid p + of_nat k) [0 ..< Suc (unat (overflow p))]"
    unfolding no_wrap_hi [OF assms(2)] by (rule range_list)
  have n: "length (map (\<lambda>k. pid p + of_nat k) [0 ..< Suc (unat (overflow p))]) =
      Suc (unat (overflow p))" by simp
  from free_Inr_effect [OF assms(1)] show ?thesis
    unfolding Let_def l n by blast
qed

text \<open>Scenario 1 of the spec: \<open>allocs[10] = 7\<close>, page 10 with one overflow page freed by
  transaction 8.\<close>
theorem free_appends_pending_witness:
  "unat (pid ex_page10) + unat (overflow ex_page10) < 2 ^ 64 \<and>
   free False 8 ex_page10 ex_allocs10 =
     Inr (ex_allocs10\<lparr>allocs := Map.empty,
            pending := [(8, \<lparr>ids = [10, 11], alloctx = [7, 7]\<rparr>)], cache := {10, 11}\<rparr>)"
proof -
  have h: "unat (pid ex_page10) + unat (overflow ex_page10) < 2 ^ 64"
    by (simp add: ex_page10_def)
  have e: "free False 8 ex_page10 ex_allocs10 =
     Inr (ex_allocs10\<lparr>allocs := Map.empty,
            pending := [(8, \<lparr>ids = [10, 11], alloctx = [7, 7]\<rparr>)], cache := {10, 11}\<rparr>)"
    by (simp add: free_def ex_page10_def ex_allocs10_def newFreelist_def free_loop.simps
        insert_commute word_le_nat_alt)
  from free_appends_pending [OF e h] h e show ?thesis by blast
qed

text \<open>
  Without the proviso the claim fails: for the page with id \<open>2^64 - 2\<close> and overflow 5
  the upper bound \<open>page.id + page.overflow\<close> wraps around to 3, the loop body never
  runs, and \<open>free\<close> returns with an empty bucket for the transaction: no entry is
  appended, not even one for \<open>page.id\<close>, and the cache stays empty.
\<close>
theorem free_appends_pending_counterexample:
  "free False 7 ex_page_wrap newFreelist =
     Inr (newFreelist\<lparr>pending := [(7, \<lparr>ids = [], alloctx = []\<rparr>)]\<rparr>)"
  by (simp add: free_def ex_page_wrap_def newFreelist_def free_loop.simps word_le_nat_alt)

text \<open>
  Claim C4, as amended.  For a page whose range \<open>page.id .. page.id + page.overflow\<close>
  stays below the largest 64-bit id, \<open>free\<close> panics exactly when \<open>page.id \<le> 1\<close>
  (invalid page id), or verification is enabled and the allocating transaction recorded
  for \<open>page.id\<close> (0 if there is none) is the freeing transaction, or some id of the range
  is already in \<open>cache\<close> (double free); otherwise it succeeds.  The range is the set of
  the \<open>page.overflow + 1\<close> ids from \<open>page.id\<close> on.
\<close>
theorem free_fails_iff:
  assumes "unat (pid p) + unat (overflow p) < 2 ^ 64 - 1"
  shows "let a = (case allocs f (pid p) of None \<Rightarrow> 0 | Some t \<Rightarrow> t);
             covered = (\<lambda>k. pid p + of_nat k) ` {0 .. unat (overflow p)}
         in (pid p \<le> 1 \<longrightarrow> free verify txid p f = Inl InvalidPageId) \<and>
            (1 < pid p \<and> verify \<and> a = txid \<longrightarrow> free verify txid p f = Inl FreedBySameTx) \<and>
            (1 < pid p \<and> \<not> (verify \<and> a = txid) \<and> (\<exists>i \<in> covered. i \<in> cache f)
               \<longrightarrow> free verify txid p f = Inl DoubleFree) \<and>
            (1 < pid p \<and> \<not> (verify \<and> a = txid) \<and> (\<forall>i \<in> covered. i \<notin> cache f)
               \<longrightarrow> (\<exists>f'. free verify txid p f = Inr f'))"
proof -
  define a where "a = (case allocs f (pid p) of None \<Rightarrow> 0 | Some t \<Rightarrow> t)"
  define old where "old = (case map_of (pending f) txid of
                      None \<Rightarrow> \<lparr>ids = [], alloctx = []\<rparr> | Some t \<Rightarrow> t)"
  define hi where "hi = pid p + ucast (overflow p)"
  define covered where "covered = (\<lambda>k. pid p + of_nat k) ` {0 .. unat (overflow p)}"
  from assms have nw: "unat (pid p) + unat (overflow p) < 2 ^ 64" by simp
  have uhi: "unat hi = unat (pid p) + unat (overflow p)"
    unfolding hi_def by (rule no_wrap_hi [OF nw])
  have top: "hi \<noteq> - 1"
  proof
    assume "hi = - 1"
    moreover have "(- 1 :: Pgid) = 0xFFFFFFFFFFFFFFFF" by simp
    ultimately have "hi = 0xFFFFFFFFFFFFFFFF" by (simp only:)
    then have "unat hi = 2 ^ 64 - 1" by simp
    with uhi assms show False by simp
  qed
  have "set (map of_nat [unat (pid p) ..< Suc (unat hi)]) = {pid p .. hi}"
    by (rule set_word_range)
  moreover have "{0 ..< Suc (unat (overflow p))} = {0 .. unat (overflow p)}" by auto
  ultimately have cov: "covered = {pid p .. hi}"
    unfolding uhi range_list covered_def by (simp del: upt_Suc atLeast0AtMost)
  have 1: "pid p \<le> 1 \<longrightarrow> free verify txid p f = Inl InvalidPageId"
    by (simp add: free_def)
  have 2: "1 < pid p \<and> verify \<and> a = txid \<longrightarrow> free verify txid p f = Inl FreedBySameTx"
    by (simp add: free_def Let_def a_def not_le [symmetric])
  have 3: "free verify txid p f = Inl DoubleFree"
    if h: "1 < pid p \<and> \<not> (verify \<and> a = txid) \<and> (\<exists>i \<in> covered. i \<in> cache f)"
  proof -
    from h have ne: "cache f \<inter> {pid p .. hi} \<noteq> {}" unfolding cov by blast
    have "free_loop (pid p) hi a old (cache f) = Inl DoubleFree"
    proof (cases "free_loop (pid p) hi a old (cache f)")
      case (Inl e)
      then show ?thesis using free_loop_Inl by blast
    next
      case (Inr r)
      then show ?thesis using free_loop_Inr [of "pid p" hi a old "cache f" "fst r" "snd r"] ne
        by simp
    qed
    with h show ?thesis
      by (auto simp: free_def Let_def a_def old_def hi_def not_le [symmetric])
  qed
  have 4: "\<exists>f'. free verify txid p f = Inr f'"
    if h: "1 < pid p \<and> \<not> (verify \<and> a = txid) \<and> (\<forall>i \<in> covered. i \<notin> cache f)"
  proof -
    from h have "cache f \<inter> {pid p .. hi} = {}" unfolding cov by blast
    from free_loop_succeeds [OF top this, of a old] obtain r where
      "free_loop (pid p) hi a old (cache f) = Inr r" by blast
    with h show ?thesis
      by (cases r) (auto simp: free_def Let_def a_def old_def hi_def not_le [symmetric])
  qed
  show ?thesis
    unfolding Let_def a_def [symmetric] covered_def [symmetric]
    using 1 2 3 4 by blast
qed

text \<open>Page 10 with one overflow page: freed successfully into an empty cache, refused when
  11 is already cached, and refused under verification by the transaction that allocated
  it.\<close>
theorem free_fails_iff_witness:
  "unat (pid ex_page10) + unat (overflow ex_page10) < 2 ^ 64 - 1 \<and> 1 < pid ex_page10 \<and>
   free False 8 ex_page10 ex_allocs10 =
     Inr (ex_allocs10\<lparr>allocs := Map.empty,
            pending := [(8, \<lparr>ids = [10, 11], alloctx = [7, 7]\<rparr>)], cache := {10, 11}\<rparr>) \<and>
   free False 8 ex_page10 (ex_allocs10\<lparr>cache := {11}\<rparr>) = Inl DoubleFree \<and>
   free True 7 ex_page10 ex_allocs10 = Inl FreedBySameTx"
proof -
  have h: "unat (pid ex_page10) + unat (overflow ex_page10) < 2 ^ 64 - 1"
    by (simp add: ex_page10_def)
  have g: "1 < pid ex_page10" by (simp add: ex_page10_def)
  have e: "free False 8 ex_page10 ex_allocs10 =
     Inr (ex_allocs10\<lparr>allocs := Map.empty,
            pending := [(8, \<lparr>ids = [10, 11], alloctx = [7, 7]\<rparr>)], cache := {10, 11}\<rparr>)"
    by (simp add: free_def ex_page10_def ex_allocs10_def newFreelist_def free_loop.simps
        insert_commute word_le_nat_alt)
  have c: "(11 :: Pgid) \<in> (\<lambda>k. pid ex_page10 + of_nat k) ` {0 .. unat (overflow ex_page10)}"
    by (simp add: ex_page10_def image_iff) (rule bexI [of _ 1], simp_all)
  have a: "(case allocs ex_allocs10 (pid ex_page10) of None \<Rightarrow> 0 | Some t \<Rightarrow> t) = 7"
    "(case allocs (ex_allocs10\<lparr>cache := {11}\<rparr>) (pid ex_page10) of None \<Rightarrow> 0 | Some t \<Rightarrow> t) = 7"
    by (simp_all add: ex_page10_def ex_allocs10_def newFreelist_def)
  from free_fails_iff [OF h, of "ex_allocs10\<lparr>cache := {11}\<rparr>" False 8] c g
  have d: "free False 8 ex_page10 (ex_allocs10\<lparr>cache := {11}\<rparr>) = Inl DoubleFree"
    unfolding Let_def by auto
  from free_fails_iff [OF h, of ex_allocs10 True 7] g a
  have v: "free True 7 ex_page10 ex_allocs10 = Inl FreedBySameTx"
    unfolding Let_def by simp
  from h g e d v show ?thesis by blast
qed

text \<open>
  The claim without the provisos fails.  With verification enabled, freeing page 10,
  allocated by transaction 7, under transaction 7 panics although \<open>10 > 1\<close> and nothing is
  cached.  Freeing the page with the largest id never succeeds, although nothing is
  cached: the loop condition \<open>id <= hi\<close> cannot become false.  And freeing the page with id
  \<open>2^64 - 2\<close> and overflow 5 succeeds although its id is already cached: the upper bound
  wraps around to 3 and the loop body never runs.
\<close>
theorem free_fails_iff_counterexample:
  "1 < pid ex_page10 \<and> cache ex_allocs10 = {} \<and>
   free True 7 ex_page10 ex_allocs10 = Inl FreedBySameTx \<and>
   1 < pid ex_page_top \<and> cache newFreelist = {} \<and>
   free False 7 ex_page_top newFreelist = Inl DoubleFree \<and>
   1 < pid ex_page_wrap \<and>
   free False 7 ex_page_wrap (newFreelist\<lparr>cache := {pid ex_page_wrap}\<rparr>) =
     Inr (newFreelist\<lparr>pending := [(7, \<lparr>ids = [], alloctx = []\<rparr>)],
                       cache := {pid ex_page_wrap}\<rparr>)"
proof -
  have 1: "1 < pid ex_page10" by (simp add: ex_page10_def)
  have 2: "cache ex_allocs10 = {}" by (simp add: ex_allocs10_def newFreelist_def)
  have 3: "free True 7 ex_page10 ex_allocs10 = Inl FreedBySameTx"
    by (simp add: free_def ex_page10_def ex_allocs10_def newFreelist_def word_le_nat_alt)
  have 4: "1 < pid ex_page_top" by (simp add: ex_page_top_def)
  have 5: "cache newFreelist = {}" by (simp add: newFreelist_def)
  have "free_loop (- 1) (- 1) 0 \<lparr>ids = [], alloctx = []\<rparr> {} = Inl DoubleFree"
  proof (cases "free_loop (- 1) (- 1) 0 \<lparr>ids = [], alloctx = []\<rparr> {}")
    case (Inl e)
    then show ?thesis using free_loop_Inl by blast
  next
    case (Inr r)
    then show ?thesis using free_loop_top by blast
  qed
  moreover have "(- 1 :: Pgid) = 0xFFFFFFFFFFFFFFFF" by simp
  ultimately have "free_loop 0xFFFFFFFFFFFFFFFF 0xFFFFFFFFFFFFFFFF 0
      \<lparr>ids = [], alloctx = []\<rparr> {} = Inl DoubleFree"
    by (simp only:)
  then have 6: "free False 7 ex_page_top newFreelist = Inl DoubleFree"
    by (simp add: free_def ex_page_top_def newFreelist_def word_le_nat_alt)
  have 7: "1 < pid ex_page_wrap" by (simp add: ex_page_wrap_def)
  have 8: "free False 7 ex_page_wrap (newFreelist\<lparr>cache := {pid ex_page_wrap}\<rparr>) =
     Inr (newFreelist\<lparr>pending := [(7, \<lparr>ids = [], alloctx = []\<rparr>)],
                       cache := {pid ex_page_wrap}\<rparr>)"
    by (simp add: free_def ex_page_wrap_def newFreelist_def free_loop.simps word_le_nat_alt)
  from 1 2 3 4 5 6 7 8 show ?thesis by blast
qed

lemma rollback_loop_eq:
  "length ats = length ps \<Longrightarrow>
   rollback_loop t ps ats c al =
     (if \<exists>a \<in> set ats. a = t \<and> a \<noteq> 0 then Inl SelfFree
      else Inr (c - set ps, al ++ map_of (rev (filter (\<lambda>(i, a). a \<noteq> 0) (zip ps ats)))))"
proof (induction ps arbitrary: ats c al)
  case Nil
  then show ?case by simp
next
  case (Cons pg ps)
  then obtain tx ats' where ats: "ats = tx # ats'" and len: "length ats' = length ps"
    by (cases ats) auto
  let ?es = "rev (filter (\<lambda>(i, a). a \<noteq> 0) (zip ps ats'))"
  have d: "c - {pg} - set ps = c - set (pg # ps)" by auto
  show ?case
  proof (cases "tx = 0")
    case True
    then show ?thesis unfolding ats using Cons.IH [OF len, of "c - {pg}" al] d by simp
  next
    case nz: False
    show ?thesis
    proof (cases "tx = t")
      case True
      with nz show ?thesis unfolding ats by simp
    next
      case False
      have eq: "al ++ map_of (?es @ [(pg, tx)]) = al(pg \<mapsto> tx) ++ map_of ?es"
        by (simp add: map_add_assoc [symmetric] map_add_upd_left)
      have step: "rollback_loop t (pg # ps) (tx # ats') c al =
          rollback_loop t ps ats' (c - {pg}) (al(pg \<mapsto> tx))"
        using nz False by simp
      have r1: "rev (filter (\<lambda>(i, a). a \<noteq> 0) (zip (pg # ps) (tx # ats'))) = ?es @ [(pg, tx)]"
        using nz by simp
      have r2: "(\<exists>a \<in> set (tx # ats'). a = t \<and> a \<noteq> 0) = (\<exists>a \<in> set ats'. a = t \<and> a \<noteq> 0)"
        using False by auto
      show ?thesis
        unfolding ats step Cons.IH [OF len] r1 r2 eq d ..
    qed
  qed
qed

text \<open>
  Claim C5, as amended.  If \<open>pending[t]\<close> is absent, \<open>rollback(t)\<close> changes nothing.
  If it is present (with an allocator recorded for each id), \<open>rollback(t)\<close> panics when
  some entry has a recorded allocator \<open>a = t\<close> with \<open>a \<noteq> 0\<close>; otherwise it removes the
  ids of the bucket from \<open>cache\<close>, sets \<open>allocs[id] = a\<close> for each entry with
  \<open>a \<noteq> 0\<close> (a later entry for the same id overriding an earlier one) and deletes the
  bucket, also when the bucket holds no entry.
\<close>
theorem rollback_effect:
  "(map_of (pending f) t = None \<longrightarrow> rollback t f = Inr f) \<and>
   (\<forall>txp. map_of (pending f) t = Some txp \<and> length (alloctx txp) = length (ids txp) \<longrightarrow>
      rollback t f =
        (if \<exists>a \<in> set (alloctx txp). a = t \<and> a \<noteq> 0 then Inl SelfFree
         else Inr (f\<lparr>cache := cache f - set (ids txp),
                     allocs := allocs f ++
                       map_of (rev (filter (\<lambda>(i, a). a \<noteq> 0) (zip (ids txp) (alloctx txp)))),
                     pending := AList.delete t (pending f)\<rparr>)))"
proof (intro conjI allI impI)
  assume "map_of (pending f) t = None"
  then show "rollback t f = Inr f" by (simp add: rollback_def)
next
  fix txp
  assume h: "map_of (pending f) t = Some txp \<and> length (alloctx txp) = length (ids txp)"
  then have len: "length (alloctx txp) = length (ids txp)" by simp
  show "rollback t f =
        (if \<exists>a \<in> set (alloctx txp). a = t \<and> a \<noteq> 0 then Inl SelfFree
         else Inr (f\<lparr>cache := cache f - set (ids txp),
                     allocs := allocs f ++
                       map_of (rev (filter (\<lambda>(i, a). a \<noteq> 0) (zip (ids txp) (alloctx txp)))),
                     pending := AList.delete t (pending f)\<rparr>))"
    using h by (simp add: rollback_def rollback_loop_eq [OF len])
qed

text \<open>Rolling back transaction 7, which freed page 50 (allocated by 3) and page 51 (allocator
  unknown); and transaction 8, which freed nothing.\<close>
theorem rollback_effect_witness:
  "map_of (pending ex_rollback) 7 = Some \<lparr>ids = [50, 51], alloctx = [3, 0]\<rparr> \<and>
   rollback 7 ex_rollback =
     Inr (ex_rollback\<lparr>cache := {}, allocs := [50 \<mapsto> 3], pending := []\<rparr>) \<and>
   map_of (pending ex_rollback) 8 = None \<and> rollback 8 ex_rollback = Inr ex_rollback"
proof -
  have 1: "map_of (pending ex_rollback) 7 = Some \<lparr>ids = [50, 51], alloctx = [3, 0]\<rparr>"
    by (simp add: ex_rollback_def newFreelist_def)
  have 2: "map_of (pending ex_rollback) 8 = None"
    by (simp add: ex_rollback_def newFreelist_def)
  from rollback_effect [of ex_rollback 7] 1
  have "rollback 7 ex_rollback =
     Inr (ex_rollback\<lparr>cache := {}, allocs := [50 \<mapsto> 3], pending := []\<rparr>)"
    by (simp add: ex_rollback_def newFreelist_def)
  moreover from rollback_effect [of ex_rollback 8] 2
  have "rollback 8 ex_rollback = Inr ex_rollback" by simp
  ultimately show ?thesis using 1 2 by blast
qed

text \<open>
  The claim as stated fails twice: an entry with \<open>a = t = 0\<close> does not make \<open>rollback(0)\<close>
  panic, and a bucket without entries is deleted, which changes the pending table.
\<close>
theorem rollback_effect_counterexample:
  "map_of (pending ex_zero) 0 = Some \<lparr>ids = [5], alloctx = [0]\<rparr> \<and>
   rollback 0 ex_zero = Inr (ex_zero\<lparr>cache := {}, pending := []\<rparr>) \<and>
   map_of (pending ex_empty_bucket) 7 = Some \<lparr>ids = [], alloctx = []\<rparr> \<and>
   rollback 7 ex_empty_bucket = Inr newFreelist \<and>
   ex_empty_bucket \<noteq> newFreelist"
  by (simp add: rollback_def ex_zero_def ex_empty_bucket_def newFreelist_def)

subsection \<open>write and size\<close>

lemma length_mergepgids: "length (mergepgids a b) = length a + length b"
  by (induction a b rule: mergepgids.induct) auto

lemma set_mergepgids: "set (mergepgids a b) = set a \<union> set b"
  by (induction a b rule: mergepgids.induct) auto

lemma sorted_mergepgids: "sorted a \<Longrightarrow> sorted b \<Longrightarrow> sorted (mergepgids a b)"
  by (induction a b rule: mergepgids.induct) (auto simp: set_mergepgids)

lemma length_span_ids: "length (span_ids s n) = n"
  by (simp add: span_ids_def)

lemma length_free_ids: "length (hashmapGetFreePageIDs f) = sum_list (map snd (forwardMap f))"
proof -
  have "length (concat (map (\<lambda>(s, n). span_ids s n) al)) = sum_list (map snd al)" for al
    by (induction al) (auto simp: length_span_ids)
  then show ?thesis by (simp add: hashmapGetFreePageIDs_def)
qed

lemma pending_count_fold:
  "fold (\<lambda>(t, txp) c. c + length (ids txp)) xs n =
     n + length (concat (map (\<lambda>(t, txp). ids txp) xs))"
  by (induction xs arbitrary: n) auto

lemma pending_count_eq: "pending_count f = length (pending_ids f)"
  by (simp add: pending_count_def pending_ids_def pending_count_fold)

lemma count_eq: "count_ok f \<Longrightarrow> count f = length (all_ids f)"
  by (simp add: count_def hashmapFreeCount_def count_ok_def all_ids_def length_mergepgids
      length_free_ids pending_count_eq)

lemma length_slots: "length (slots p k) = k"
  by (simp add: slots_def)

lemma copyall_exact:
  "length dst = length (all_ids f) \<Longrightarrow> copyall dst f = Inr (all_ids f)"
  by (simp add: copyall_def Mergepgids_def all_ids_def pending_ids_def Let_def)

lemma write_result:
  assumes "count_ok f"
  shows "freelist_write p f =
     Inr (f, (if count f < 0xFFFF
              then p\<lparr>flags := FreelistPageFlag, pcount := of_nat (count f),
                     pdata := all_ids f @ drop (count f) (pdata p)\<rparr>
              else p\<lparr>flags := FreelistPageFlag, pcount := 0xFFFF,
                     pdata := of_nat (count f) # all_ids f @ drop (count f + 1) (pdata p)\<rparr>),
          None)"
proof -
  note L = count_eq [OF assms]
  show ?thesis
  proof (cases "count f = 0")
    case True
    with L have "all_ids f = []" by simp
    with True show ?thesis by (simp add: freelist_write_def)
  next
    case nz: False
    show ?thesis
    proof (cases "count f < 0xFFFF")
      case True
      have "copyall (slots (p\<lparr>flags := FreelistPageFlag\<rparr>) (count f)) f = Inr (all_ids f)"
        by (rule copyall_exact) (simp add: length_slots L)
      with nz True show ?thesis by (simp add: freelist_write_def Let_def)
    next
      case False
      have "copyall (drop 1 (slots (p\<lparr>flags := FreelistPageFlag\<rparr>) (count f + 1))) f
          = Inr (all_ids f)"
        by (rule copyall_exact) (simp add: length_slots L)
      with nz False show ?thesis by (simp add: freelist_write_def Let_def)
    qed
  qed
qed

lemma write_frame:
  "freelist_write p f = Inr (f', p', e) \<Longrightarrow>
     f' = f \<and> e = None \<and> pid p' = pid p \<and> overflow p' = overflow p"
  by (auto simp: freelist_write_def Let_def split: if_splits sum.splits)

lemma unat_count16: "n < 0xFFFF \<Longrightarrow> unat (of_nat n :: 16 word) = n"
  by (simp add: unat_of_nat)

text \<open>
  Claim C6.  Let \<open>L = count()\<close>, in a manager whose cached free count is the sum of its
  span sizes.  \<open>write\<close> stores the \<open>L\<close> ids of the sorted merge.  If \<open>L < 0xFFFF\<close> the
  header count is \<open>L\<close> and the ids fill the first \<open>L\<close> slots (none when \<open>L = 0\<close>); if
  \<open>L \<ge> 0xFFFF\<close> the header count is \<open>0xFFFF\<close>, the first slot holds \<open>L\<close> and the ids
  follow, \<open>L + 1\<close> slots in all.  \<open>size()\<close> is the header size plus 8 bytes for each of
  these slots.
\<close>
theorem write_counting_convention:
  assumes "count_ok f"
  shows "\<exists>p'. freelist_write p f = Inr (f, p', None) \<and> length (all_ids f) = count f \<and>
     (count f < 0xFFFF \<longrightarrow>
        unat (pcount p') = count f \<and> pdata p' = all_ids f @ drop (count f) (pdata p)) \<and>
     (0xFFFF \<le> count f \<longrightarrow>
        pcount p' = 0xFFFF \<and>
        pdata p' = of_nat (count f) # all_ids f @ drop (count f + 1) (pdata p)) \<and>
     freelist_size f =
       PageHeaderSize + PgidSize * (if count f < 0xFFFF then count f else count f + 1)"
proof (cases "count f < 0xFFFF")
  case True
  then show ?thesis
    using write_result [OF assms, of p] count_eq [OF assms] unat_count16 [OF True]
    by (simp add: freelist_size_def Let_def)
next
  case False
  then show ?thesis
    using write_result [OF assms, of p] count_eq [OF assms]
    by (simp add: freelist_size_def Let_def)
qed

text \<open>A manager with span (12, 3) and two pending ids, written to a page of eight slots; and
  scenario 5 of the spec, a manager with \<open>0xFFFF\<close> free ids.\<close>
theorem write_counting_convention_witness:
  "count_ok ex_state \<and> count ex_state = 5 \<and>
   (\<exists>p'. freelist_write ex_buf ex_state = Inr (ex_state, p', None) \<and>
      unat (pcount p') = 5 \<and> pdata p' = [10, 11, 12, 13, 14, 0, 0, 0]) \<and>
   freelist_size ex_state = 56 \<and>
   count_ok ex_big \<and> count ex_big = 0xFFFF \<and>
   (\<exists>p'. freelist_write ex_buf ex_big = Inr (ex_big, p', None) \<and>
      pcount p' = 0xFFFF \<and> pdata p' = 0xFFFF # all_ids ex_big) \<and>
   length (all_ids ex_big) = 0xFFFF \<and>
   freelist_size ex_big = 16 + 8 * 0x10000"
proof -
  have 1: "count_ok ex_state" by (simp add: count_ok_def ex_state_def)
  have 2: "count ex_state = 5"
    by (simp add: count_def hashmapFreeCount_def pending_count_def ex_state_def)
  have 3: "all_ids ex_state = [10, 11, 12, 13, 14]"
    by (simp add: all_ids_def hashmapGetFreePageIDs_def pending_ids_def ex_state_def
        span_ids_def upt_rec)
  have 4: "count_ok ex_big" by (simp add: count_ok_def ex_big_def newFreelist_def)
  have 5: "count ex_big = 0xFFFF"
    by (simp add: count_def hashmapFreeCount_def pending_count_def ex_big_def newFreelist_def)
  have 6: "pdata ex_buf = [0, 0, 0, 0, 0, 0, 0, 0]" by (simp add: ex_buf_def)
  from write_counting_convention [OF 1, of ex_buf]
  have a: "(\<exists>p'. freelist_write ex_buf ex_state = Inr (ex_state, p', None) \<and>
      unat (pcount p') = 5 \<and> pdata p' = [10, 11, 12, 13, 14, 0, 0, 0]) \<and>
     freelist_size ex_state = 56"
    unfolding 2 3 6 by (auto simp add: PageHeaderSize_def PgidSize_def)
  from write_counting_convention [OF 4, of ex_buf]
  have b: "(\<exists>p'. freelist_write ex_buf ex_big = Inr (ex_big, p', None) \<and>
      pcount p' = 0xFFFF \<and> pdata p' = 0xFFFF # all_ids ex_big) \<and>
   length (all_ids ex_big) = 0xFFFF \<and>
   freelist_size ex_big = 16 + 8 * 0x10000"
    unfolding 5 6 by (auto simp add: PageHeaderSize_def PgidSize_def)
  from 1 2 4 5 a b show ?thesis by blast
qed

text \<open>
  Claim C10.  Whenever \<open>write\<close> returns, the manager is what it was, the error is
  \<open>nil\<close>, and of the page only the flags, the count and the slots may differ; and it does
  return for every manager whose cached free count is the sum of its span sizes.
\<close>
theorem write_leaves_manager:
  "(\<forall>f' p' e. freelist_write p f = Inr (f', p', e) \<longrightarrow>
      f' = f \<and> e = None \<and> pid p' = pid p \<and> overflow p' = overflow p) \<and>
   (count_ok f \<longrightarrow> (\<exists>p'. freelist_write p f = Inr (f, p', None)))"
  using write_frame [of p f] write_result [of f p] by blast

text \<open>The same manager and page: \<open>write\<close> returns the manager it was given.\<close>
theorem write_leaves_manager_witness:
  "count_ok ex_state \<and>
   freelist_write ex_buf ex_state =
     Inr (ex_state, ex_buf\<lparr>flags := FreelistPageFlag, pcount := 5,
                          pdata := [10, 11, 12, 13, 14, 0, 0, 0]\<rparr>, None) \<and>
   pid (ex_buf\<lparr>flags := FreelistPageFlag, pcount := 5,
                pdata := [10, 11, 12, 13, 14, 0, 0, 0]\<rparr>) = pid ex_buf"
proof -
  have 1: "count_ok ex_state" by (simp add: count_ok_def ex_state_def)
  have 3: "all_ids ex_state = [10, 11, 12, 13, 14]"
    by (simp add: all_ids_def hashmapGetFreePageIDs_def pending_ids_def ex_state_def
        span_ids_def upt_rec)
  have 2: "freelist_write ex_buf ex_state =
     Inr (ex_state, ex_buf\<lparr>flags := FreelistPageFlag, pcount := 5,
                          pdata := [10, 11, 12, 13, 14, 0, 0, 0]\<rparr>, None)"
    using 3 by (simp add: freelist_write_def count_def hashmapFreeCount_def pending_count_def copyall_def Mergepgids_def
        all_ids_def pending_ids_def slots_def ex_state_def ex_buf_def)
  from write_leaves_manager [of ex_buf ex_state] 1 2 show ?thesis by simp
qed

subsection \<open>read, reload and recovery\<close>

lemma set_span_ids: "set (span_ids s n) = (\<lambda>i. s + of_nat i) ` {..<n}"
  by (auto simp: span_ids_def)

lemma span_ids_Suc: "set (span_ids s (Suc n)) = insert (s + of_nat n) (set (span_ids s n))"
  by (auto simp: set_span_ids lessThan_Suc)

lemma span_ids_one: "set (span_ids s (Suc 0)) = {s}"
  by (simp add: span_ids_def)

lemma span_ids_mono: "k \<le> n \<Longrightarrow> set (span_ids s k) \<subseteq> set (span_ids s n)"
  by (auto simp: set_span_ids)

lemma set_free_ids:
  "set (hashmapGetFreePageIDs f) = (\<Union>(s, n) \<in> set (forwardMap f). set (span_ids s n))"
  by (auto simp: hashmapGetFreePageIDs_def)

lemma cover_map_of:
  "distinct (map fst al) \<Longrightarrow> (\<Union>(s, n) \<in> set al. set (span_ids s n)) = cover (map_of al)"
  by (auto simp: cover_def)

lemma cover_empty: "cover Map.empty = {}"
  by (simp add: cover_def)

lemma cover_upd_fresh: "m s = None \<Longrightarrow> cover (m(s \<mapsto> n)) = cover m \<union> set (span_ids s n)"
proof (rule set_eqI)
  fix i
  assume none: "m s = None"
  show "i \<in> cover (m(s \<mapsto> n)) \<longleftrightarrow> i \<in> cover m \<union> set (span_ids s n)"
  proof
    assume "i \<in> cover (m(s \<mapsto> n))"
    then obtain s' k where h: "(m(s \<mapsto> n)) s' = Some k" "i \<in> set (span_ids s' k)"
      unfolding cover_def by blast
    show "i \<in> cover m \<union> set (span_ids s n)"
    proof (cases "s' = s")
      case True
      with h show ?thesis by simp
    next
      case False
      with h have "m s' = Some k" by simp
      with h(2) show ?thesis unfolding cover_def by blast
    qed
  next
    assume "i \<in> cover m \<union> set (span_ids s n)"
    then consider "i \<in> cover m" | "i \<in> set (span_ids s n)" by blast
    then show "i \<in> cover (m(s \<mapsto> n))"
    proof cases
      case 1
      then obtain s' k where h: "m s' = Some k" "i \<in> set (span_ids s' k)"
        unfolding cover_def by blast
      with none have "s' \<noteq> s" by auto
      with h have "(m(s \<mapsto> n)) s' = Some k" by simp
      with h(2) show ?thesis unfolding cover_def by blast
    next
      case 2
      have "(m(s \<mapsto> n)) s = Some n" by simp
      with 2 show ?thesis unfolding cover_def by blast
    qed
  qed
qed

lemma cover_upd_dominated:
  assumes some: "m s = Some k" and sub: "set (span_ids s k) \<subseteq> set (span_ids s n)"
  shows "cover (m(s \<mapsto> n)) = cover m \<union> set (span_ids s n)"
proof (rule set_eqI)
  fix i
  show "i \<in> cover (m(s \<mapsto> n)) \<longleftrightarrow> i \<in> cover m \<union> set (span_ids s n)"
  proof
    assume "i \<in> cover (m(s \<mapsto> n))"
    then obtain s' j where h: "(m(s \<mapsto> n)) s' = Some j" "i \<in> set (span_ids s' j)"
      unfolding cover_def by blast
    show "i \<in> cover m \<union> set (span_ids s n)"
    proof (cases "s' = s")
      case True
      with h show ?thesis by simp
    next
      case False
      with h have "m s' = Some j" by simp
      with h(2) show ?thesis unfolding cover_def by blast
    qed
  next
    assume "i \<in> cover m \<union> set (span_ids s n)"
    then consider "i \<in> cover m" | "i \<in> set (span_ids s n)" by blast
    then show "i \<in> cover (m(s \<mapsto> n))"
    proof cases
      case 1
      then obtain s' j where h: "m s' = Some j" "i \<in> set (span_ids s' j)"
        unfolding cover_def by blast
      show ?thesis
      proof (cases "s' = s")
        case True
        with h some have "i \<in> set (span_ids s k)" by simp
        with sub have "i \<in> set (span_ids s n)" by blast
        moreover have "(m(s \<mapsto> n)) s = Some n" by simp
        ultimately show ?thesis unfolding cover_def by blast
      next
        case False
        with h have "(m(s \<mapsto> n)) s' = Some j" by simp
        with h(2) show ?thesis unfolding cover_def by blast
      qed
    next
      case 2
      have "(m(s \<mapsto> n)) s = Some n" by simp
      with 2 show ?thesis unfolding cover_def by blast
    qed
  qed
qed

lemma cover_runs:
  assumes "1 \<le> n0"
    and "\<forall>y \<in> set xs. unat s0 + n0 - 1 \<le> unat y"
    and "sorted xs"
    and "\<forall>s n. m s = Some n \<longrightarrow> 1 \<le> n \<and> unat s + n - 1 \<le> unat s0"
  shows "cover (fold (\<lambda>(s, n) m. m(s \<mapsto> n)) (runs s0 n0 xs) m) =
           cover m \<union> set (span_ids s0 n0) \<union> set xs"
  using assms
proof (induction xs arbitrary: s0 n0 m)
  case Nil
  have "cover (m(s0 \<mapsto> n0)) = cover m \<union> set (span_ids s0 n0)"
  proof (cases "m s0")
    case None
    then show ?thesis by (rule cover_upd_fresh)
  next
    case (Some k)
    with Nil.prems(4) have "k \<le> 1" by fastforce
    with Nil.prems(1) have "k \<le> n0" by simp
    then show ?thesis using Some by (intro cover_upd_dominated span_ids_mono)
  qed
  then show ?case by (simp del: fun_upd_apply)
next
  case (Cons x xs)
  have upd: "cover (m(s0 \<mapsto> n0)) = cover m \<union> set (span_ids s0 n0)"
  proof (cases "m s0")
    case None
    then show ?thesis by (rule cover_upd_fresh)
  next
    case (Some k)
    with Cons.prems(4) have "k \<le> 1" by fastforce
    with Cons.prems(1) have "k \<le> n0" by simp
    then show ?thesis using Some by (intro cover_upd_dominated span_ids_mono)
  qed
  from Cons.prems(3) have sx: "sorted xs" and xle: "\<forall>y \<in> set xs. x \<le> y" by auto
  from Cons.prems(2) have lx: "unat s0 + n0 - 1 \<le> unat x" by simp
  show ?case
  proof (cases "x = s0 + of_nat n0")
    case True
    have bound: "unat x < 2 ^ 64" using unsigned_less [of x, where ?'a = nat] by simp
    have ux: "unat x = unat s0 + n0"
    proof -
      have le: "unat s0 + n0 \<le> 2 ^ 64" using lx bound Cons.prems(1) by simp
      have m: "unat x = (unat s0 + n0) mod 2 ^ 64"
        unfolding True by (simp add: unat_word_ariths unat_of_nat mod_add_right_eq)
      show ?thesis
      proof (cases "unat s0 + n0 = 2 ^ 64")
        case True
        with m have "unat x = 0" by simp
        with lx True show ?thesis by simp
      next
        case False
        with le have "unat s0 + n0 < 2 ^ 64" by simp
        with m show ?thesis by simp
      qed
    qed
    have p2: "\<forall>y \<in> set xs. unat s0 + (n0 + 1) - 1 \<le> unat y"
      using xle ux by (auto simp: word_le_nat_alt)
    have "cover (fold (\<lambda>(s, n) m. m(s \<mapsto> n)) (runs s0 (n0 + 1) xs) m) =
        cover m \<union> set (span_ids s0 (n0 + 1)) \<union> set xs"
      by (rule Cons.IH) (use Cons.prems p2 sx in auto)
    then show ?thesis using True by (simp add: span_ids_Suc del: fun_upd_apply)
  next
    case False
    have p2: "\<forall>y \<in> set xs. unat x + 1 - 1 \<le> unat y"
      using xle by (auto simp: word_le_nat_alt)
    have p4: "\<forall>s n. (m(s0 \<mapsto> n0)) s = Some n \<longrightarrow> 1 \<le> n \<and> unat s + n - 1 \<le> unat x"
    proof (intro allI impI)
      fix s n
      assume a: "(m(s0 \<mapsto> n0)) s = Some n"
      show "1 \<le> n \<and> unat s + n - 1 \<le> unat x"
      proof (cases "s = s0")
        case True
        with a have "n = n0" by simp
        with True Cons.prems(1) lx show ?thesis by simp
      next
        case False
        with a have "m s = Some n" by simp
        with Cons.prems(4) have "1 \<le> n" "unat s + n - 1 \<le> unat s0" by blast+
        moreover from lx Cons.prems(1) have "unat s0 \<le> unat x" by simp
        ultimately show ?thesis by simp
      qed
    qed
    have "cover (fold (\<lambda>(s, n) m. m(s \<mapsto> n)) (runs x 1 xs) (m(s0 \<mapsto> n0))) =
        cover (m(s0 \<mapsto> n0)) \<union> set (span_ids x 1) \<union> set xs"
      by (rule Cons.IH) (use p2 p4 sx in auto)
    then show ?thesis using False upd by (simp add: span_ids_one del: fun_upd_apply)
  qed
qed

lemma fold_addSpan_fields:
  "forwardMap (fold (\<lambda>(s, n). addSpan s n) sp f) =
     fold (\<lambda>(s, n). AList.update s n) sp (forwardMap f) \<and>
   pending (fold (\<lambda>(s, n). addSpan s n) sp f) = pending f \<and>
   allocs (fold (\<lambda>(s, n). addSpan s n) sp f) = allocs f \<and>
   cache (fold (\<lambda>(s, n). addSpan s n) sp f) = cache f \<and>
   fids (fold (\<lambda>(s, n). addSpan s n) sp f) = fids f"
  by (induction sp arbitrary: f) (auto simp: addSpan_def)

lemma fold_update_map:
  "map_of (fold (\<lambda>(s, n). AList.update s n) sp al) =
     fold (\<lambda>(s, n) m. m(s \<mapsto> n)) sp (map_of al)"
  by (induction sp arbitrary: al) (auto simp: update_conv' simp del: fun_upd_apply)

lemma fold_update_distinct:
  "distinct (map fst al) \<Longrightarrow> distinct (map fst (fold (\<lambda>(s, n). AList.update s n) sp al))"
  by (induction sp arbitrary: al) (auto simp: distinct_update)

lemma init_fields:
  "pending (init pgids f) = pending f \<and> allocs (init pgids f) = allocs f \<and>
   cache (init pgids f) = cache f \<and> fids (init pgids f) = fids f"
  by (cases pgids) (simp_all add: init_def fold_addSpan_fields)

lemma init_free_ids:
  assumes "sorted pgids"
  shows "set (hashmapGetFreePageIDs (init pgids f)) = set pgids"
proof (cases pgids)
  case Nil
  then show ?thesis by (simp add: init_def hashmapGetFreePageIDs_def)
next
  case (Cons x xs)
  let ?f0 = "f\<lparr>freemaps := [], forwardMap := [], backwardMap := [], freePagesCount := 0\<rparr>"
  let ?al = "fold (\<lambda>(s, n). AList.update s n) (runs x 1 xs) []"
  have fm: "forwardMap (init (x # xs) f) = ?al"
    using fold_addSpan_fields [of "runs x 1 xs" ?f0] by (simp add: init_def)
  have d: "distinct (map fst ?al)" by (rule fold_update_distinct) simp
  from assms Cons have sx: "sorted xs" and xle: "\<forall>y \<in> set xs. x \<le> y" by auto
  have "cover (fold (\<lambda>(s, n) m. m(s \<mapsto> n)) (runs x 1 xs) Map.empty) =
      cover Map.empty \<union> set (span_ids x 1) \<union> set xs"
    by (rule cover_runs) (use sx xle in \<open>auto simp: word_le_nat_alt\<close>)
  then have "cover (map_of ?al) = set (x # xs)"
    by (simp add: fold_update_map cover_empty span_ids_one)
  then show ?thesis
    unfolding Cons set_free_ids fm cover_map_of [OF d] .
qed

lemma set_pcache: "pcache f = set (pending_ids f)"
  by (simp add: pcache_def pending_ids_def)

lemma readIDs_result:
  assumes "sorted pgids"
  shows "set (hashmapGetFreePageIDs (hashmapReadIDs pgids f)) = set pgids \<and>
         cache (hashmapReadIDs pgids f) = set pgids \<union> set (pending_ids f) \<and>
         pending (hashmapReadIDs pgids f) = pending f \<and>
         allocs (hashmapReadIDs pgids f) = allocs f"
proof -
  have g: "hashmapGetFreePageIDs (reindex h) = hashmapGetFreePageIDs h" for h
    by (simp add: reindex_def hashmapGetFreePageIDs_def)
  show ?thesis
    using init_free_ids [OF assms, of f] init_fields [of pgids f]
    by (simp add: hashmapReadIDs_def g) (simp add: reindex_def pending_ids_def)
qed

lemma coalesced_Nil: "coalesced []"
  by (simp add: coalesced_def)

lemma coalesced_iff:
  "coalesced sp \<longleftrightarrow>
     (\<forall>s n. (s, n) \<in> set sp \<longrightarrow> 0 < n \<and> unat s + n \<le> 2 ^ 64 \<and>
        (\<forall>s' n'. (s', n') \<in> set sp \<longrightarrow>
           (s = s' \<and> n = n') \<or> unat s + n < unat s' \<or> unat s' + n' < unat s))"
  unfolding coalesced_def by (simp add: Ball_def)

lemma coalesced_subset: "coalesced sp \<Longrightarrow> set sp' \<subseteq> set sp \<Longrightarrow> coalesced sp'"
  unfolding coalesced_iff by (meson subsetD)

lemma coalesced_Cons:
  assumes n: "0 < n" and b: "unat s + n \<le> 2 ^ 64"
    and g: "\<forall>(s', n') \<in> set r. unat s + n < unat s'" and c: "coalesced r"
  shows "coalesced ((s, n) # r)"
  unfolding coalesced_iff
proof (intro allI impI)
  fix s1 n1
  assume m1: "(s1, n1) \<in> set ((s, n) # r)"
  from g have g': "\<And>s' n'. (s', n') \<in> set r \<Longrightarrow> unat s + n < unat s'" by blast
  from c have c1: "\<And>s' n'. (s', n') \<in> set r \<Longrightarrow> 0 < n' \<and> unat s' + n' \<le> 2 ^ 64"
    and c2: "\<And>s' n' s'' n''. (s', n') \<in> set r \<Longrightarrow> (s'', n'') \<in> set r \<Longrightarrow>
        (s' = s'' \<and> n' = n'') \<or> unat s' + n' < unat s'' \<or> unat s'' + n'' < unat s'"
    unfolding coalesced_iff by blast+
  have p1: "0 < n1 \<and> unat s1 + n1 \<le> 2 ^ 64"
  proof (cases "(s1, n1) = (s, n)")
    case True
    with n b show ?thesis by simp
  next
    case False
    with m1 have "(s1, n1) \<in> set r" by auto
    then show ?thesis by (rule c1)
  qed
  have p2: "(s1 = s2 \<and> n1 = n2) \<or> unat s1 + n1 < unat s2 \<or> unat s2 + n2 < unat s1"
    if m2: "(s2, n2) \<in> set ((s, n) # r)" for s2 n2
  proof (cases "(s1, n1) = (s, n)")
    case a: True
    show ?thesis
    proof (cases "(s2, n2) = (s, n)")
      case True
      with a show ?thesis by simp
    next
      case False
      with m2 have "(s2, n2) \<in> set r" by auto
      from g' [OF this] a show ?thesis by simp
    qed
  next
    case a: False
    with m1 have r1: "(s1, n1) \<in> set r" by auto
    show ?thesis
    proof (cases "(s2, n2) = (s, n)")
      case True
      from g' [OF r1] True show ?thesis by simp
    next
      case False
      with m2 have "(s2, n2) \<in> set r" by auto
      from c2 [OF r1 this] show ?thesis .
    qed
  qed
  from p1 p2 show "0 < n1 \<and> unat s1 + n1 \<le> 2 ^ 64 \<and>
        (\<forall>s' n'. (s', n') \<in> set ((s, n) # r) \<longrightarrow>
           (s1 = s' \<and> n1 = n') \<or> unat s1 + n1 < unat s' \<or> unat s' + n' < unat s1)"
    by blast
qed

lemma strict_head:
  fixes x :: Pgid
  assumes "sorted (x # xs)" and "distinct (x # xs)"
  shows "sorted xs" and "distinct xs" and "\<forall>y \<in> set xs. unat x < unat y"
proof -
  from assms(1) show "sorted xs" by simp
  from assms(2) show "distinct xs" by simp
  show "\<forall>y \<in> set xs. unat x < unat y"
  proof
    fix y assume y: "y \<in> set xs"
    with assms(1) have "x \<le> y" by simp
    moreover from y assms(2) have "x \<noteq> y" by auto
    ultimately have "x < y" by simp
    then show "unat x < unat y" by (simp add: word_less_nat_alt)
  qed
qed

lemma runs_coalesced:
  assumes "1 \<le> n0" and "unat s0 + n0 \<le> 2 ^ 64"
    and "\<forall>y \<in> set xs. unat s0 + n0 - 1 < unat y"
    and "sorted xs" and "distinct xs"
  shows "\<exists>nf r. runs s0 n0 xs = (s0, nf) # r \<and> n0 \<le> nf \<and> unat s0 + nf \<le> 2 ^ 64 \<and>
           (\<forall>(s, n) \<in> set r. unat s0 + nf < unat s) \<and> coalesced r"
  using assms
proof (induction xs arbitrary: s0 n0)
  case Nil
  then show ?case by (simp add: coalesced_Nil)
next
  case (Cons x xs)
  note sx = strict_head(1) [OF Cons.prems(4,5)]
  note dx = strict_head(2) [OF Cons.prems(4,5)]
  note xlt = strict_head(3) [OF Cons.prems(4,5)]
  from Cons.prems(3) have lx: "unat s0 + n0 - 1 < unat x" by simp
  have bx: "unat x < 2 ^ 64" using unsigned_less [of x, where ?'a = nat] by simp
  from lx Cons.prems(1) have le: "unat s0 + n0 \<le> unat x" by simp
  show ?case
  proof (cases "x = s0 + of_nat n0")
    case True
    have ux: "unat x = unat s0 + n0"
    proof -
      from le bx have "unat s0 + n0 < 2 ^ 64" by simp
      moreover have "unat x = (unat s0 + n0) mod 2 ^ 64"
        unfolding True by (simp add: unat_word_ariths unat_of_nat mod_add_right_eq)
      ultimately show ?thesis by simp
    qed
    have "\<exists>nf r. runs s0 (n0 + 1) xs = (s0, nf) # r \<and> n0 + 1 \<le> nf \<and> unat s0 + nf \<le> 2 ^ 64 \<and>
           (\<forall>(s, n) \<in> set r. unat s0 + nf < unat s) \<and> coalesced r"
    proof (rule Cons.IH)
      show "1 \<le> n0 + 1" by simp
      show "unat s0 + (n0 + 1) \<le> 2 ^ 64" using ux bx by simp
      show "\<forall>y \<in> set xs. unat s0 + (n0 + 1) - 1 < unat y" using xlt ux by simp
    qed (rule sx, rule dx)
    then obtain nf r where "runs s0 (n0 + 1) xs = (s0, nf) # r" "n0 + 1 \<le> nf"
      "unat s0 + nf \<le> 2 ^ 64" "\<forall>(s, n) \<in> set r. unat s0 + nf < unat s" "coalesced r"
      by blast
    then show ?thesis using True
      by (intro exI [of _ nf] exI [of _ r]) simp
  next
    case False
    have "unat s0 + n0 \<noteq> unat x"
    proof
      assume e: "unat s0 + n0 = unat x"
      have "s0 + of_nat n0 = of_nat (unat s0 + n0)" by simp
      also have "\<dots> = x" unfolding e by simp
      finally show False using False by simp
    qed
    with le have lt: "unat s0 + n0 < unat x" by simp
    have "\<exists>nf r. runs x 1 xs = (x, nf) # r \<and> 1 \<le> nf \<and> unat x + nf \<le> 2 ^ 64 \<and>
           (\<forall>(s, n) \<in> set r. unat x + nf < unat s) \<and> coalesced r"
    proof (rule Cons.IH)
      show "1 \<le> (1::nat)" by simp
      show "unat x + 1 \<le> 2 ^ 64" using bx by simp
      show "\<forall>y \<in> set xs. unat x + 1 - 1 < unat y" using xlt by simp
    qed (rule sx, rule dx)
    then obtain nf r where r: "runs x 1 xs = (x, nf) # r" and n1: "1 \<le> nf"
      and b: "unat x + nf \<le> 2 ^ 64" and g: "\<forall>(s, n) \<in> set r. unat x + nf < unat s"
      and c: "coalesced r" by blast
    have c': "coalesced ((x, nf) # r)"
    proof (rule coalesced_Cons)
      show "0 < nf" using n1 by simp
    qed (rule b, rule g, rule c)
    have g': "\<forall>(s, n) \<in> set ((x, nf) # r). unat s0 + n0 < unat s"
      using lt g by auto
    have "runs s0 n0 (x # xs) = (s0, n0) # (x, nf) # r" using False r by simp
    with Cons.prems(2) g' c' show ?thesis by blast
  qed
qed

lemma set_fold_update:
  "set (fold (\<lambda>(s, n). AList.update s n) sp al) \<subseteq> set sp \<union> set al"
proof (induction sp arbitrary: al)
  case Nil
  show ?case by simp
next
  case (Cons b sp)
  obtain s n where b: "b = (s, n)" by (cases b)
  have "set (AList.update s n al) \<subseteq> insert (s, n) (set al)"
    by (induction al) auto
  with Cons [of "AList.update s n al"] show ?case unfolding b by auto
qed

lemma init_coalesced:
  assumes "sorted pgids" and "distinct pgids"
  shows "coalesced (forwardMap (init pgids f))"
proof (cases pgids)
  case Nil
  then show ?thesis by (simp add: init_def coalesced_Nil)
next
  case (Cons x xs)
  let ?f0 = "f\<lparr>freemaps := [], forwardMap := [], backwardMap := [], freePagesCount := 0\<rparr>"
  have fm: "forwardMap (init (x # xs) f) = fold (\<lambda>(s, n). AList.update s n) (runs x 1 xs) []"
    using fold_addSpan_fields [of "runs x 1 xs" ?f0] by (simp add: init_def)
  from assms Cons have sd: "sorted (x # xs)" "distinct (x # xs)" by simp_all
  note sx = strict_head(1) [OF sd]
  note dx = strict_head(2) [OF sd]
  note xlt = strict_head(3) [OF sd]
  have bx: "unat x < 2 ^ 64" using unsigned_less [of x, where ?'a = nat] by simp
  have "\<exists>nf r. runs x 1 xs = (x, nf) # r \<and> 1 \<le> nf \<and> unat x + nf \<le> 2 ^ 64 \<and>
           (\<forall>(s, n) \<in> set r. unat x + nf < unat s) \<and> coalesced r"
  proof (rule runs_coalesced)
    show "1 \<le> (1::nat)" by simp
    show "unat x + 1 \<le> 2 ^ 64" using bx by simp
    show "\<forall>y \<in> set xs. unat x + 1 - 1 < unat y" using xlt by simp
  qed (rule sx, rule dx)
  then obtain nf r where r: "runs x 1 xs = (x, nf) # r" and n1: "1 \<le> nf"
    and b: "unat x + nf \<le> 2 ^ 64" and g: "\<forall>(s, n) \<in> set r. unat x + nf < unat s"
    and c: "coalesced r" by blast
  have "coalesced (runs x 1 xs)"
    unfolding r
  proof (rule coalesced_Cons)
    show "0 < nf" using n1 by simp
  qed (rule b, rule g, rule c)
  moreover have "set (forwardMap (init (x # xs) f)) \<subseteq> set (runs x 1 xs)"
    unfolding fm using set_fold_update [of "runs x 1 xs" "[]"] by simp
  ultimately show ?thesis unfolding Cons by (rule coalesced_subset)
qed

lemma readIDs_coalesced:
  assumes "sorted pgids" and "distinct pgids"
  shows "coalesced (forwardMap (hashmapReadIDs pgids f))"
  using init_coalesced [OF assms, of f] by (simp add: hashmapReadIDs_def reindex_def)

text \<open>
  Claim C7, as amended.  \<open>read\<close> panics on a page that is not a freelist page.  On a
  freelist page that stores at least one id it returns, the free ids being then exactly the
  ids decoded from the page, installed as spans that are coalesced (no two of them overlap
  or are adjacent) whenever the page stores no id twice, and \<open>cache\<close> being these ids
  together with the ids of the pending table, which \<open>read\<close> leaves as it is.
\<close>
theorem read_installs:
  "(\<not> IsFreelistPage p \<longrightarrow> read p f = Inl MalformedPage) \<and>
   (IsFreelistPage p \<and> FreelistPageIds p \<noteq> [] \<longrightarrow>
      (\<exists>g. read p f = Inr g \<and>
           set (hashmapGetFreePageIDs g) = set (FreelistPageIds p) \<and>
           (distinct (FreelistPageIds p) \<longrightarrow> coalesced (forwardMap g)) \<and>
           cache g = set (FreelistPageIds p) \<union> set (pending_ids f) \<and>
           pending g = pending f \<and> allocs g = allocs f))"
  using readIDs_result [of "sort (FreelistPageIds p)" f]
    readIDs_coalesced [of "sort (FreelistPageIds p)" f]
  by (simp add: read_def Let_def)

lemma decode_written:
  assumes "count_ok f" and "count f < 2 ^ 63"
    and "freelist_write p f = Inr (f, p', None)"
  shows "IsFreelistPage p' \<and> FreelistPageIds p' = all_ids f"
proof -
  note L = count_eq [OF assms(1)]
  note W = write_result [OF assms(1), of p]
  show ?thesis
  proof (cases "count f < 0xFFFF")
    case True
    with W assms(3) have p': "p' = p\<lparr>flags := FreelistPageFlag, pcount := of_nat (count f),
                     pdata := all_ids f @ drop (count f) (pdata p)\<rparr>" by simp
    from True have u: "unat (of_nat (count f) :: 16 word) = count f" by (rule unat_count16)
    with True have ne: "(of_nat (count f) :: 16 word) \<noteq> 0xFFFF" by auto
    show ?thesis
      using ne u L by (simp add: p' IsFreelistPage_def FreelistPageIds_def FreelistPageCount_def)
  next
    case False
    with W assms(3) have p': "p' = p\<lparr>flags := FreelistPageFlag, pcount := 0xFFFF,
        pdata := of_nat (count f) # all_ids f @ drop (count f + 1) (pdata p)\<rparr>" by simp
    from assms(2) have "count f < 2 ^ 64" by (rule less_le_trans) simp
    then have u: "unat (of_nat (count f) :: Pgid) = count f" by (simp add: unat_of_nat)
    show ?thesis
      using u L by (simp add: p' IsFreelistPage_def FreelistPageIds_def FreelistPageCount_def)
  qed
qed

text \<open>
  Claim C1.  For every manager state (whose cached free count is the sum of its span sizes
  and whose count fits a Go \<open>int\<close>), \<open>write\<close> to a page large enough and then \<open>read\<close> of
  that page by a fresh manager give a manager whose free ids are the free ids and the
  pending ids of the first, and whose pending table is empty.
\<close>
theorem write_read_recovery:
  assumes "count_ok f" and "count f < 2 ^ 63"
    and "freelist_size f \<le> PageHeaderSize + PgidSize * length (pdata p)"
  shows "\<exists>p' g. freelist_write p f = Inr (f, p', None) \<and> read p' newFreelist = Inr g \<and>
           set (hashmapGetFreePageIDs g) = set (hashmapGetFreePageIDs f) \<union> set (pending_ids f) \<and>
           pending g = []"
proof -
  from write_result [OF assms(1), of p] obtain p' where
    w: "freelist_write p f = Inr (f, p', None)" by blast
  note D = decode_written [OF assms(1,2) w]
  have s: "set (all_ids f) = set (hashmapGetFreePageIDs f) \<union> set (pending_ids f)"
    by (simp add: all_ids_def set_mergepgids)
  show ?thesis
  proof (cases "all_ids f = []")
    case True
    with D have "read p' newFreelist = Inr (newFreelist\<lparr>fids := []\<rparr>)"
      by (simp add: read_def)
    moreover have "hashmapGetFreePageIDs (newFreelist\<lparr>fids := []\<rparr>) = []"
      by (simp add: hashmapGetFreePageIDs_def newFreelist_def)
    moreover have "pending (newFreelist\<lparr>fids := []\<rparr>) = []" by (simp add: newFreelist_def)
    ultimately show ?thesis using w s True by auto
  next
    case False
    let ?g = "hashmapReadIDs (sort (all_ids f)) newFreelist"
    from False D have r: "read p' newFreelist = Inr ?g" by (simp add: read_def Let_def)
    from readIDs_result [of "sort (all_ids f)" newFreelist]
    have "set (hashmapGetFreePageIDs ?g) = set (all_ids f)" "pending ?g = []"
      by (simp_all add: newFreelist_def)
    with w r s show ?thesis by auto
  qed
qed

text \<open>A page that is not a freelist page; and the freelist page storing id 5, read by a
  manager in which id 9 is pending.\<close>
theorem read_installs_witness:
  "\<not> IsFreelistPage ex_buf \<and> read ex_buf ex_pending9 = Inl MalformedPage \<and>
   IsFreelistPage ex_page5 \<and> FreelistPageIds ex_page5 = [5] \<and>
   (\<exists>g. read ex_page5 ex_pending9 = Inr g \<and> set (hashmapGetFreePageIDs g) = {5} \<and>
        coalesced (forwardMap g) \<and>
        cache g = {5, 9} \<and> pending g = [(7, \<lparr>ids = [9], alloctx = [0]\<rparr>)])"
proof -
  have 1: "\<not> IsFreelistPage ex_buf"
    by (simp add: IsFreelistPage_def ex_buf_def FreelistPageFlag_def)
  have 2: "IsFreelistPage ex_page5"
    by (simp add: IsFreelistPage_def ex_page5_def FreelistPageFlag_def)
  have 3: "FreelistPageIds ex_page5 = [5]"
    by (simp add: FreelistPageIds_def FreelistPageCount_def ex_page5_def)
  have 4: "set (pending_ids ex_pending9) = {9}" "pending ex_pending9 = [(7, \<lparr>ids = [9], alloctx = [0]\<rparr>)]"
    by (simp_all add: pending_ids_def ex_pending9_def newFreelist_def)
  from read_installs [of ex_buf ex_pending9] 1
  have a: "read ex_buf ex_pending9 = Inl MalformedPage" by blast
  from read_installs [of ex_page5 ex_pending9] 2 3 4
  have b: "\<exists>g. read ex_page5 ex_pending9 = Inr g \<and> set (hashmapGetFreePageIDs g) = {5} \<and>
        coalesced (forwardMap g) \<and>
        cache g = {5, 9} \<and> pending g = [(7, \<lparr>ids = [9], alloctx = [0]\<rparr>)]"
    by auto
  from 1 2 3 a b show ?thesis by blast
qed

text \<open>
  The claim as stated fails three times.  Reading a freelist page that stores no id leaves
  the span index and the cache as they were: the manager that held span (5, 1) still holds
  it.  Reading the page that stores id 5 into a manager in which id 9 is pending yields the
  cache \<open>{5, 9}\<close>, not \<open>{5}\<close>.  And reading the page that stores 5, 6, 6, 7 installs
  the runs 5, 6 and 6, 7 as the spans (5, 2) and (6, 2), which overlap.
\<close>
theorem read_installs_counterexample:
  "IsFreelistPage ex_empty_page \<and> FreelistPageIds ex_empty_page = [] \<and>
   read ex_empty_page ex_span5 = Inr (ex_span5\<lparr>fids := []\<rparr>) \<and>
   hashmapGetFreePageIDs (ex_span5\<lparr>fids := []\<rparr>) = [5] \<and>
   cache (ex_span5\<lparr>fids := []\<rparr>) = {5} \<and>
   IsFreelistPage ex_page5 \<and> FreelistPageIds ex_page5 = [5] \<and>
   read ex_page5 ex_pending9 =
     Inr (ex_pending9\<lparr>freemaps := [(1, [5])], forwardMap := [(5, 1)],
            backwardMap := [(5, 1)], freePagesCount := 1, cache := {5, 9}\<rparr>) \<and>
   IsFreelistPage ex_page_dup \<and> FreelistPageIds ex_page_dup = [5, 6, 6, 7] \<and>
   read ex_page_dup newFreelist =
     Inr (newFreelist\<lparr>freemaps := [(2, [6, 5])], forwardMap := [(5, 2), (6, 2)],
            backwardMap := [(6, 2), (7, 2)], freePagesCount := 4, cache := {5, 6, 7}\<rparr>) \<and>
   \<not> coalesced [(5, 2), (6, 2)]"
proof -
  have 1: "IsFreelistPage ex_empty_page"
    by (simp add: IsFreelistPage_def ex_empty_page_def FreelistPageFlag_def)
  have 2: "FreelistPageIds ex_empty_page = []"
    by (simp add: FreelistPageIds_def FreelistPageCount_def ex_empty_page_def)
  have 3: "read ex_empty_page ex_span5 = Inr (ex_span5\<lparr>fids := []\<rparr>)"
    using 1 2 by (simp add: read_def)
  have 4: "hashmapGetFreePageIDs (ex_span5\<lparr>fids := []\<rparr>) = [5]"
    by (simp add: hashmapGetFreePageIDs_def ex_span5_def newFreelist_def span_ids_def)
  have 5: "cache (ex_span5\<lparr>fids := []\<rparr>) = {5}"
    by (simp add: ex_span5_def newFreelist_def)
  have 6: "IsFreelistPage ex_page5"
    by (simp add: IsFreelistPage_def ex_page5_def FreelistPageFlag_def)
  have 7: "FreelistPageIds ex_page5 = [5]"
    by (simp add: FreelistPageIds_def FreelistPageCount_def ex_page5_def)
  have 8: "read ex_page5 ex_pending9 =
     Inr (ex_pending9\<lparr>freemaps := [(1, [5])], forwardMap := [(5, 1)],
            backwardMap := [(5, 1)], freePagesCount := 1, cache := {5, 9}\<rparr>)"
    using 6 7 by (simp add: read_def hashmapReadIDs_def init_def addSpan_def reindex_def
        hashmapGetFreePageIDs_def span_ids_def ex_pending9_def newFreelist_def insert_commute)
  have 9: "IsFreelistPage ex_page_dup"
    by (simp add: IsFreelistPage_def ex_page_dup_def FreelistPageFlag_def)
  have 10: "FreelistPageIds ex_page_dup = [5, 6, 6, 7]"
    by (simp add: FreelistPageIds_def FreelistPageCount_def ex_page_dup_def)
  have 11: "read ex_page_dup newFreelist =
     Inr (newFreelist\<lparr>freemaps := [(2, [6, 5])], forwardMap := [(5, 2), (6, 2)],
            backwardMap := [(6, 2), (7, 2)], freePagesCount := 4, cache := {5, 6, 7}\<rparr>)"
    using 9 10 by (simp add: read_def hashmapReadIDs_def init_def addSpan_def reindex_def
        hashmapGetFreePageIDs_def span_ids_def newFreelist_def insert_commute upt_rec)
  have 12: "\<not> coalesced [(5, 2), (6, 2)]"
    by (simp add: coalesced_def)
  from 1 2 3 4 5 6 7 8 9 10 11 12 show ?thesis by blast
qed

text \<open>The manager with span (12, 3) and the pending ids 11 and 10, written to a page of eight
  slots.\<close>
theorem write_read_recovery_witness:
  "count_ok ex_state \<and> count ex_state < 2 ^ 63 \<and>
   freelist_size ex_state \<le> PageHeaderSize + PgidSize * length (pdata ex_buf) \<and>
   (\<exists>p' g. freelist_write ex_buf ex_state = Inr (ex_state, p', None) \<and>
      read p' newFreelist = Inr g \<and>
      set (hashmapGetFreePageIDs g) = {10, 11, 12, 13, 14} \<and> pending g = [])"
proof -
  have 1: "count_ok ex_state" by (simp add: count_ok_def ex_state_def)
  have c: "count ex_state = 5"
    by (simp add: count_def hashmapFreeCount_def pending_count_def ex_state_def)
  have 2: "count ex_state < 2 ^ 63" unfolding c by simp
  have 3: "freelist_size ex_state \<le> PageHeaderSize + PgidSize * length (pdata ex_buf)"
    by (simp add: freelist_size_def c PageHeaderSize_def PgidSize_def ex_buf_def)
  have 4: "set (hashmapGetFreePageIDs ex_state) \<union> set (pending_ids ex_state) = {10, 11, 12, 13, 14}"
    by (auto simp: hashmapGetFreePageIDs_def pending_ids_def ex_state_def span_ids_def upt_rec)
  from write_read_recovery [OF 1 2 3] 1 2 3 show ?thesis unfolding 4 by blast
qed

text \<open>
  Claim C8 at a freelist page that stores no id, reloaded by a manager that holds the span
  (5, 1) and nothing pending.  \<open>read\<close> does not touch the span index, so \<open>reload\<close> keeps
  id 5 free, while \<open>noSyncReload\<close> with the decoded (empty) list leaves no id free.
\<close>
theorem reload_empty_page:
  "IsFreelistPage ex_empty_page \<and> FreelistPageIds ex_empty_page = [] \<and>
   reload ex_empty_page ex_span5 = Inr ex_span5 \<and>
   hashmapGetFreePageIDs ex_span5 = [5] \<and>
   noSyncReload (FreelistPageIds ex_empty_page) ex_span5 = newFreelist \<and>
   hashmapGetFreePageIDs newFreelist = []"
proof -
  have 1: "IsFreelistPage ex_empty_page"
    by (simp add: IsFreelistPage_def ex_empty_page_def FreelistPageFlag_def)
  have 2: "FreelistPageIds ex_empty_page = []"
    by (simp add: FreelistPageIds_def FreelistPageCount_def ex_empty_page_def)
  have 3: "read ex_empty_page ex_span5 = Inr ex_span5"
    using 1 2 by (simp add: read_def ex_span5_def newFreelist_def)
  have 4: "hashmapGetFreePageIDs ex_span5 = [5]"
    by (simp add: hashmapGetFreePageIDs_def ex_span5_def newFreelist_def span_ids_def)
  have 5: "reload ex_empty_page ex_span5 = Inr ex_span5"
    unfolding reload_def 3 using 4
    by (simp add: pcache_def hashmapReadIDs_def init_def addSpan_def reindex_def
        hashmapGetFreePageIDs_def span_ids_def ex_span5_def newFreelist_def)
  have 6: "noSyncReload (FreelistPageIds ex_empty_page) ex_span5 = newFreelist"
    unfolding 2
    by (simp add: noSyncReload_def hashmapReadIDs_def init_def reindex_def
        hashmapGetFreePageIDs_def ex_span5_def newFreelist_def)
  have 7: "hashmapGetFreePageIDs newFreelist = []"
    by (simp add: hashmapGetFreePageIDs_def newFreelist_def)
  from 1 2 4 5 6 7 show ?thesis by blast
qed

subsection \<open>merge and release\<close>

lemma spans_ok_consistent:
  "spans_ok f \<Longrightarrow> consistent (map_of (forwardMap f)) (map_of (backwardMap f))"
  unfolding spans_ok_def consistent_def
  by (auto dest!: map_of_SomeD)

lemma consistent_spans_ok:
  "distinct (map fst (forwardMap f)) \<Longrightarrow> distinct (map fst (backwardMap f)) \<Longrightarrow>
   consistent (map_of (forwardMap f)) (map_of (backwardMap f)) \<Longrightarrow> spans_ok f"
  unfolding spans_ok_def consistent_def
  by auto

lemma merge_maps:
  fixes i :: Pgid
  defines "n \<equiv> \<lambda>f. (case map_of (backwardMap f) (i - 1) of None \<Rightarrow> 0 | Some n \<Rightarrow> n)"
    and "k \<equiv> \<lambda>f. (case map_of (forwardMap f) (i + 1) of None \<Rightarrow> 0 | Some k \<Rightarrow> k)"
  shows "map_of (forwardMap (mergeWithExistingSpan i f)) =
           ((map_of (forwardMap f))(i + 1 := None))(i - of_nat (n f) \<mapsto> 1 + n f + k f)"
    and "map_of (backwardMap (mergeWithExistingSpan i f)) =
           ((map_of (backwardMap f))(i - 1 := None))(i + of_nat (k f) \<mapsto> 1 + n f + k f)"
    and "distinct (map fst (forwardMap f)) \<Longrightarrow>
           distinct (map fst (forwardMap (mergeWithExistingSpan i f)))"
    and "distinct (map fst (backwardMap f)) \<Longrightarrow>
           distinct (map fst (backwardMap (mergeWithExistingSpan i f)))"
    and "pending (mergeWithExistingSpan i f) = pending f"
    and "allocs (mergeWithExistingSpan i f) = allocs f"
    and "cache (mergeWithExistingSpan i f) = insert i (cache f)"
proof -
  show "map_of (forwardMap (mergeWithExistingSpan i f)) =
           ((map_of (forwardMap f))(i + 1 := None))(i - of_nat (n f) \<mapsto> 1 + n f + k f)"
    unfolding n_def k_def
    by (auto simp: mergeWithExistingSpan_def Let_def addSpan_def delSpan_def update_conv'
        delete_conv' fun_eq_iff split: option.splits)
  show "map_of (backwardMap (mergeWithExistingSpan i f)) =
           ((map_of (backwardMap f))(i - 1 := None))(i + of_nat (k f) \<mapsto> 1 + n f + k f)"
    unfolding n_def k_def
    by (auto simp: mergeWithExistingSpan_def Let_def addSpan_def delSpan_def update_conv'
        delete_conv' fun_eq_iff split: option.splits)
  show "distinct (map fst (forwardMap f)) \<Longrightarrow>
           distinct (map fst (forwardMap (mergeWithExistingSpan i f)))"
    by (auto simp: mergeWithExistingSpan_def Let_def addSpan_def delSpan_def distinct_update
        distinct_delete split: option.splits)
  show "distinct (map fst (backwardMap f)) \<Longrightarrow>
           distinct (map fst (backwardMap (mergeWithExistingSpan i f)))"
    by (auto simp: mergeWithExistingSpan_def Let_def addSpan_def delSpan_def distinct_update
        distinct_delete split: option.splits)
  show "pending (mergeWithExistingSpan i f) = pending f"
    by (auto simp: mergeWithExistingSpan_def Let_def addSpan_def delSpan_def split: option.splits)
  show "allocs (mergeWithExistingSpan i f) = allocs f"
    by (auto simp: mergeWithExistingSpan_def Let_def addSpan_def delSpan_def split: option.splits)
  show "cache (mergeWithExistingSpan i f) = insert i (cache f)"
    by (auto simp: mergeWithExistingSpan_def Let_def addSpan_def delSpan_def split: option.splits)
qed

lemma span_ids_zero: "set (span_ids s 0) = {}"
  by (simp add: span_ids_def)

lemma span_ids_start: "0 < n \<Longrightarrow> s \<in> set (span_ids s n)"
  by (force simp: set_span_ids)

lemma span_ids_last: "0 < n \<Longrightarrow> s + of_nat n - 1 \<in> set (span_ids s n)"
proof -
  assume "0 < n"
  then obtain j where j: "n = Suc j" by (cases n) auto
  have "s + of_nat n - 1 = s + of_nat j" by (simp add: j)
  then show ?thesis unfolding set_span_ids j by blast
qed

lemma span_split:
  "set (span_ids (i - of_nat n) (1 + n + k)) =
     set (span_ids (i - of_nat n) n) \<union> {i} \<union> set (span_ids (i + 1) k)"
proof (rule set_eqI)
  fix x
  show "x \<in> set (span_ids (i - of_nat n) (1 + n + k)) \<longleftrightarrow>
        x \<in> set (span_ids (i - of_nat n) n) \<union> {i} \<union> set (span_ids (i + 1) k)"
  proof
    assume "x \<in> set (span_ids (i - of_nat n) (1 + n + k))"
    then obtain j where j: "j < 1 + n + k" "x = i - of_nat n + of_nat j"
      unfolding set_span_ids by blast
    consider "j < n" | "j = n" | "n < j" by linarith
    then show "x \<in> set (span_ids (i - of_nat n) n) \<union> {i} \<union> set (span_ids (i + 1) k)"
    proof cases
      case 1
      with j show ?thesis unfolding set_span_ids by blast
    next
      case 2
      with j show ?thesis by simp
    next
      case 3
      then have "j = n + 1 + (j - n - 1)" by simp
      then obtain j' where j': "j = n + 1 + j'" ..
      with j have "j' < k" "x = i + 1 + of_nat j'" by simp_all
      then show ?thesis unfolding set_span_ids by blast
    qed
  next
    assume "x \<in> set (span_ids (i - of_nat n) n) \<union> {i} \<union> set (span_ids (i + 1) k)"
    then consider "x \<in> set (span_ids (i - of_nat n) n)" | "x = i" | "x \<in> set (span_ids (i + 1) k)"
      by blast
    then show "x \<in> set (span_ids (i - of_nat n) (1 + n + k))"
    proof cases
      case 1
      then show ?thesis using span_ids_mono [of n "1 + n + k" "i - of_nat n"] by auto
    next
      case 2
      have "n < 1 + n + k" by simp
      moreover have "x = i - of_nat n + of_nat n" using 2 by simp
      ultimately show ?thesis unfolding set_span_ids by blast
    next
      case 3
      then obtain j' where j': "j' < k" "x = i + 1 + of_nat j'" unfolding set_span_ids by blast
      then have "n + 1 + j' < 1 + n + k" "x = i - of_nat n + of_nat (n + 1 + j')" by simp_all
      then show ?thesis unfolding set_span_ids by blast
    qed
  qed
qed

lemma cover_del:
  "cover m = cover (m(x := None)) \<union> (case m x of None \<Rightarrow> {} | Some j \<Rightarrow> set (span_ids x j))"
proof (cases "m x")
  case None
  then have "m(x := None) = m" by (simp add: fun_upd_idem)
  with None show ?thesis by simp
next
  case (Some j)
  have "cover ((m(x := None))(x \<mapsto> j)) = cover (m(x := None)) \<union> set (span_ids x j)"
    by (rule cover_upd_fresh) simp
  moreover have "(m(x := None))(x \<mapsto> j) = m" using Some by (simp add: fun_upd_idem)
  ultimately show ?thesis using Some by simp
qed

lemma cover_upd: "cover (m(x \<mapsto> j)) = cover (m(x := None)) \<union> set (span_ids x j)"
proof -
  have "cover ((m(x := None))(x \<mapsto> j)) = cover (m(x := None)) \<union> set (span_ids x j)"
    by (rule cover_upd_fresh) simp
  then show ?thesis by simp
qed

lemma merge_step_cover:
  fixes i :: Pgid
  assumes c: "consistent F B" and ni: "i \<notin> cover F"
    and n: "n = (case B (i - 1) of None \<Rightarrow> 0 | Some n \<Rightarrow> n)"
    and k: "k = (case F (i + 1) of None \<Rightarrow> 0 | Some k \<Rightarrow> k)"
  shows "cover ((F(i + 1 := None))(i - of_nat n \<mapsto> 1 + n + k)) = insert i (cover F)"
proof -
  let ?a = "i - of_nat n"
  let ?C = "cover ((F(i + 1 := None))(?a := None))"
  let ?S2 = "(case (F(i + 1 := None)) ?a of None \<Rightarrow> {} | Some j \<Rightarrow> set (span_ids ?a j))"
  have izero: "F i = Some j \<Longrightarrow> j = 0" for j
  proof (rule ccontr)
    assume "F i = Some j" "j \<noteq> 0"
    then have "i \<in> cover F" unfolding cover_def using span_ids_start [of j i] by blast
    with ni show False by blast
  qed
  have prev: "B (i - 1) = Some m \<Longrightarrow> F (i - of_nat m) = Some m" for m
  proof -
    assume "B (i - 1) = Some m"
    with c have "F (i - 1 - of_nat m + 1) = Some m" unfolding consistent_def by blast
    then show ?thesis by simp
  qed
  have s1: "(case F (i + 1) of None \<Rightarrow> {} | Some j \<Rightarrow> set (span_ids (i + 1) j)) =
      set (span_ids (i + 1) k)"
    unfolding k by (simp add: span_ids_zero split: option.splits)
  have e1: "cover F = cover (F(i + 1 := None)) \<union> set (span_ids (i + 1) k)"
    using cover_del [of F "i + 1"] unfolding s1 .
  have e2: "cover (F(i + 1 := None)) = ?C \<union> ?S2"
    by (rule cover_del)
  have s2: "set (span_ids (i + 1) k) \<union> ?S2 = set (span_ids (i + 1) k) \<union> set (span_ids ?a n)"
  proof (cases "B (i - 1)")
    case None
    then have n0: "n = 0" unfolding n by simp
    have "?S2 = {}"
    proof (cases "F i")
      case None
      then show ?thesis unfolding n0 by simp
    next
      case (Some j)
      with izero have "j = 0" by blast
      with Some show ?thesis unfolding n0 by (simp add: span_ids_zero)
    qed
    then show ?thesis unfolding n0 by (simp add: span_ids_zero)
  next
    case (Some m)
    then have nm: "n = m" unfolding n by simp
    from prev [OF Some] have Fa: "F ?a = Some n" unfolding nm .
    show ?thesis
    proof (cases "?a = i + 1")
      case True
      with Fa have kn: "k = n" unfolding k by simp
      have "?S2 = {}" unfolding True by simp
      then show ?thesis unfolding kn True by simp
    next
      case False
      with Fa show ?thesis by simp
    qed
  qed
  have "cover ((F(i + 1 := None))(?a \<mapsto> 1 + n + k)) = ?C \<union> set (span_ids ?a (1 + n + k))"
    by (rule cover_upd)
  also have "\<dots> = ?C \<union> (set (span_ids ?a n) \<union> {i} \<union> set (span_ids (i + 1) k))"
    unfolding span_split ..
  also have "\<dots> = insert i (?C \<union> (set (span_ids (i + 1) k) \<union> ?S2))"
    unfolding s2 by blast
  also have "\<dots> = insert i (cover F)"
    unfolding e1 e2 by blast
  finally show ?thesis .
qed

lemma merge_step_consistent:
  fixes i :: Pgid
  assumes c: "consistent F B" and ni: "i \<notin> cover F"
    and n: "n = (case B (i - 1) of None \<Rightarrow> 0 | Some n \<Rightarrow> n)"
    and k: "k = (case F (i + 1) of None \<Rightarrow> 0 | Some k \<Rightarrow> k)"
  shows "consistent ((F(i + 1 := None))(i - of_nat n \<mapsto> 1 + n + k))
           ((B(i - 1 := None))(i + of_nat k \<mapsto> 1 + n + k))"
proof -
  let ?a = "i - of_nat n"
  let ?N = "1 + n + k"
  let ?F' = "(F(i + 1 := None))(?a \<mapsto> ?N)"
  let ?B' = "(B(i - 1 := None))(i + of_nat k \<mapsto> ?N)"
  from c have I1: "\<And>s m. F s = Some m \<Longrightarrow> B (s + of_nat m - 1) = Some m"
    and I2: "\<And>e m. B e = Some m \<Longrightarrow> F (e - of_nat m + 1) = Some m"
    unfolding consistent_def by blast+
  have notin: "F s = Some m \<Longrightarrow> 0 < m \<Longrightarrow> i \<noteq> s + of_nat m - 1" for s m
  proof
    assume "F s = Some m" "0 < m" "i = s + of_nat m - 1"
    then have "i \<in> cover F" unfolding cover_def using span_ids_last [of m s] by blast
    with ni show False by blast
  qed
  have izero: "F i = Some j \<Longrightarrow> j = 0" for j
  proof (rule ccontr)
    assume "F i = Some j" "j \<noteq> 0"
    then have "i \<in> cover F" unfolding cover_def using span_ids_start [of j i] by blast
    with ni show False by blast
  qed
  have prevN: "B (i - 1) = Some m \<Longrightarrow> n = m" for m
    unfolding n by simp
  have prevF: "F ?a = Some n" if b: "B (i - 1) = Some m" for m
  proof -
    from I2 [OF b] have "F (i - of_nat m) = Some m" by simp
    then show ?thesis unfolding prevN [OF b] .
  qed
  have nextK: "F (i + 1) = Some m \<Longrightarrow> k = m" for m
    unfolding k by simp
  have nextB: "B (i + of_nat k) = Some k" if b: "F (i + 1) = Some m" for m
  proof -
    from I1 [OF b] have "B (i + of_nat m) = Some m" by simp
    then show ?thesis unfolding nextK [OF b] .
  qed
  have end_new: "?a + of_nat ?N - 1 = i + of_nat k" by simp
  have start_new: "i + of_nat k - of_nat ?N + 1 = ?a" by simp
  have P1: "?B' (s + of_nat m - 1) = Some m" if h: "?F' s = Some m" for s m
  proof (cases "s = ?a")
    case True
    with h have "m = ?N" by simp
    then show ?thesis unfolding True using end_new by simp
  next
    case False
    with h have sn: "s \<noteq> i + 1" and Fs: "F s = Some m" by (auto split: if_splits)
    note Bs = I1 [OF Fs]
    have ne1: "s + of_nat m - 1 \<noteq> i - 1"
    proof
      assume e: "s + of_nat m - 1 = i - 1"
      with Bs have "B (i - 1) = Some m" by simp
      from prevN [OF this] have "n = m" .
      moreover from e have "s = i - of_nat m" by (simp add: algebra_simps)
      ultimately show False using False by simp
    qed
    have ne2: "s + of_nat m - 1 \<noteq> i + of_nat k"
    proof
      assume e: "s + of_nat m - 1 = i + of_nat k"
      show False
      proof (cases "F (i + 1)")
        case (Some k')
        note Bk = nextB [OF Some]
        from Bs e have "B (i + of_nat k) = Some m" by simp
        with Bk have "m = k" by simp
        with e have "s = i + 1" by (simp add: algebra_simps)
        with sn show False by blast
      next
        case None
        then have k0: "k = 0" unfolding k by simp
        show False
        proof (cases "m = 0")
          case True
          with e k0 have "s = i + 1" by (simp add: algebra_simps)
          with Fs None show False by simp
        next
          case False
          with notin [OF Fs] e k0 show False by simp
        qed
      qed
    qed
    from Bs ne1 ne2 show ?thesis by simp
  qed
  have P2: "?F' (e - of_nat m + 1) = Some m" if h: "?B' e = Some m" for e m
  proof (cases "e = i + of_nat k")
    case True
    with h have "m = ?N" by simp
    then show ?thesis unfolding True using start_new by simp
  next
    case False
    with h have en: "e \<noteq> i - 1" and Be: "B e = Some m" by (auto split: if_splits)
    note Fe = I2 [OF Be]
    have ne1: "e - of_nat m + 1 \<noteq> i + 1"
    proof
      assume eq: "e - of_nat m + 1 = i + 1"
      with Fe have "F (i + 1) = Some m" by simp
      from nextK [OF this] have "k = m" .
      moreover from eq have "e = i + of_nat m" by (simp add: algebra_simps)
      ultimately show False using False by simp
    qed
    have ne2: "e - of_nat m + 1 \<noteq> ?a"
    proof
      assume eq: "e - of_nat m + 1 = ?a"
      show False
      proof (cases "B (i - 1)")
        case (Some n')
        note Fa = prevF [OF Some]
        from Fe eq have "F ?a = Some m" by simp
        with Fa have "m = n" by simp
        with eq have "e = i - 1" by (simp add: algebra_simps)
        with en show False by blast
      next
        case None
        then have n0: "n = 0" unfolding n by simp
        with eq Fe have "F i = Some m" by simp
        with izero have "m = 0" by blast
        with eq n0 have "e = i - 1" by (simp add: algebra_simps)
        with Be None show False by simp
      qed
    qed
    from Fe ne1 ne2 show ?thesis by simp
  qed
  show ?thesis unfolding consistent_def using P1 P2 by blast
qed

lemma free_set_cover:
  "distinct (map fst (forwardMap f)) \<Longrightarrow>
     set (hashmapGetFreePageIDs f) = cover (map_of (forwardMap f))"
  unfolding set_free_ids by (rule cover_map_of)

lemma merge_one:
  assumes ok: "spans_ok f" and ni: "i \<notin> set (hashmapGetFreePageIDs f)"
  shows "spans_ok (mergeWithExistingSpan i f)"
    and "set (hashmapGetFreePageIDs (mergeWithExistingSpan i f)) =
           insert i (set (hashmapGetFreePageIDs f))"
proof -
  from ok have d: "distinct (map fst (forwardMap f))" "distinct (map fst (backwardMap f))"
    unfolding spans_ok_def by blast+
  note c = spans_ok_consistent [OF ok]
  from ni have ni': "i \<notin> cover (map_of (forwardMap f))" unfolding free_set_cover [OF d(1)] .
  note d' = merge_maps(3) [OF d(1), of i] merge_maps(4) [OF d(2), of i]
  have "consistent (map_of (forwardMap (mergeWithExistingSpan i f)))
      (map_of (backwardMap (mergeWithExistingSpan i f)))"
    unfolding merge_maps(1,2)
    by (rule merge_step_consistent [OF c ni']) simp_all
  then show "spans_ok (mergeWithExistingSpan i f)"
    using d' by (intro consistent_spans_ok)
  show "set (hashmapGetFreePageIDs (mergeWithExistingSpan i f)) =
           insert i (set (hashmapGetFreePageIDs f))"
    unfolding free_set_cover [OF d(1)] free_set_cover [OF d'(1)] merge_maps(1)
    by (rule merge_step_cover [OF c ni']) simp_all
qed

lemma merge_spans_result:
  assumes "spans_ok f" and "distinct m" and "set m \<inter> set (hashmapGetFreePageIDs f) = {}"
  shows "spans_ok (hashmapMergeSpans m f) \<and>
         set (hashmapGetFreePageIDs (hashmapMergeSpans m f)) =
           set (hashmapGetFreePageIDs f) \<union> set m \<and>
         pending (hashmapMergeSpans m f) = pending f \<and>
         allocs (hashmapMergeSpans m f) = allocs f \<and>
         cache (hashmapMergeSpans m f) = cache f \<union> set m"
  using assms
proof (induction m arbitrary: f)
  case Nil
  then show ?case by (simp add: hashmapMergeSpans_def)
next
  case (Cons i m)
  from Cons.prems have ni: "i \<notin> set (hashmapGetFreePageIDs f)" by auto
  note M = merge_one [OF Cons.prems(1) ni]
  from Cons.prems have "distinct m"
    "set m \<inter> set (hashmapGetFreePageIDs (mergeWithExistingSpan i f)) = {}"
    unfolding M(2) by auto
  from Cons.IH [OF M(1) this] show ?case
    unfolding M(2) by (auto simp: hashmapMergeSpans_def merge_maps)
qed

lemma safe2Release_iff: "safe2Release rs a ft \<longleftrightarrow> \<not> visible rs a ft"
  by (induction rs) (auto simp: visible_def)

lemma swap_remove:
  assumes "i < length E"
  shows "take i (butlast (E[i := last E])) = take i E"
    and "mset (drop i (butlast (E[i := last E]))) + {#E ! i#} = mset (drop i E)"
proof -
  let ?r = "drop (Suc i) E"
  have E: "E = take i E @ E ! i # ?r" using assms by (rule id_take_nth_drop)
  have li: "length (take i E) = i" using assms by simp
  show "take i (butlast (E[i := last E])) = take i E"
    using assms by (simp add: take_butlast)
  show "mset (drop i (butlast (E[i := last E]))) + {#E ! i#} = mset (drop i E)"
  proof (cases "?r = []")
    case True
    then have len: "length E = Suc i" using assms by simp
    then have "E \<noteq> []" by auto
    then have "last E = E ! i" using len by (simp add: last_conv_nth)
    then have "E[i := last E] = E" by simp
    then have "drop i (butlast (E[i := last E])) = []" using len by simp
    moreover have "drop i E = [E ! i]"
      using True assms by (simp add: Cons_nth_drop_Suc [symmetric])
    ultimately show ?thesis by simp
  next
    case False
    have lr: "length E - Suc i \<noteq> 0" using False by simp
    then have "Suc i < length E" by simp
    then have lastE: "last E = last ?r" by (rule last_drop [symmetric])
    have "E[i := last E] = take i E @ last E # ?r"
      using assms by (rule upd_conv_take_nth_drop)
    then have u: "E[i := last E] = take i E @ (last ?r # ?r)" unfolding lastE by simp
    have "butlast (take i E @ (last ?r # ?r)) = take i E @ butlast (last ?r # ?r)"
      by (simp only: butlast_append list.simps if_False)
    then have "butlast (E[i := last E]) = take i E @ last ?r # butlast ?r"
      unfolding u using False by simp
    then have d1: "drop i (butlast (E[i := last E])) = last ?r # butlast ?r"
      using li by simp
    have "butlast ?r @ [last ?r] = ?r" using False by (rule append_butlast_last_id)
    then have "mset ?r = mset (butlast ?r @ [last ?r])" by simp
    then have d2: "mset (last ?r # butlast ?r) = mset ?r" by simp
    have d3: "drop i E = E ! i # ?r" using assms by (simp add: Cons_nth_drop_Suc)
    show ?thesis unfolding d1 d3 using d2 by simp
  qed
qed

lemma zip_swap_remove:
  assumes "length ys = length xs" and "i < length xs"
  shows "zip (butlast (xs[i := last xs])) (butlast (ys[i := last ys])) =
           butlast ((zip xs ys)[i := last (zip xs ys)])"
proof -
  from assms have ne: "xs \<noteq> []" "ys \<noteq> []" by auto
  have l: "last (zip xs ys) = (last xs, last ys)"
    using ne assms(1) by (simp add: last_zip)
  have "zip (butlast (xs[i := last xs])) (butlast (ys[i := last ys])) =
      take (length xs - 1) (zip (xs[i := last xs]) (ys[i := last ys]))"
    using assms(1) by (simp add: butlast_conv_take take_zip)
  also have "\<dots> = butlast ((zip xs ys)[i := last (zip xs ys)])"
    unfolding l using assms(1) by (simp add: butlast_conv_take zip_update)
  finally show ?thesis .
qed

lemma release_loop_result:
  assumes "length tatx = length tids"
  shows "\<exists>tids' tatx' rel.
     release_loop rs ft i tids tatx m = Inr (tids', tatx', m @ rel) \<and>
     length tatx' = length tids' \<and>
     mset (zip tids' tatx') =
       mset (take i (zip tids tatx)) +
       filter_mset (\<lambda>(p, a). visible rs a ft) (mset (drop i (zip tids tatx))) \<and>
     mset rel =
       image_mset fst (filter_mset (\<lambda>(p, a). \<not> visible rs a ft) (mset (drop i (zip tids tatx))))"
  using assms
proof (induction rs ft i tids tatx m rule: release_loop.induct)
  case (1 rs ft i tids tatx m)
  let ?E = "zip tids tatx"
  note len = "1.prems"
  show ?case
  proof (cases "i < length tids")
    case False
    then have "release_loop rs ft i tids tatx m = Inr (tids, tatx, m @ [])"
      by (simp add: release_loop.simps [of rs ft i])
    moreover from False len have "take i ?E = ?E" "drop i ?E = []" by simp_all
    ultimately show ?thesis using len by (intro exI [of _ tids] exI [of _ tatx] exI [of _ "[]"]) simp
  next
    case True
    with len have iE: "i < length ?E" and nle: "\<not> length tatx \<le> i" by simp_all
    have Ei: "?E ! i = (tids ! i, tatx ! i)" using True len by simp
    have dE: "mset (drop i ?E) = mset (drop (Suc i) ?E) + {#?E ! i#}"
      using iE by (simp add: Cons_nth_drop_Suc [symmetric])
    show ?thesis
    proof (cases "safe2Release rs (tatx ! i) ft")
      case safe: True
      let ?t2 = "butlast (tids[i := last tids])" and ?a2 = "butlast (tatx[i := last tatx])"
      have len2: "length ?a2 = length ?t2" using len by simp
      have E2: "zip ?t2 ?a2 = butlast (?E[i := last ?E])"
        using len True by (rule zip_swap_remove)
      from "1.IH"(1) [OF True nle safe len2] obtain tids' tatx' rel where
        r: "release_loop rs ft i ?t2 ?a2 (m @ [tids ! i]) = Inr (tids', tatx', (m @ [tids ! i]) @ rel)"
        and l': "length tatx' = length tids'"
        and k: "mset (zip tids' tatx') = mset (take i (zip ?t2 ?a2)) +
             filter_mset (\<lambda>(p, a). visible rs a ft) (mset (drop i (zip ?t2 ?a2)))"
        and m': "mset rel = image_mset fst
             (filter_mset (\<lambda>(p, a). \<not> visible rs a ft) (mset (drop i (zip ?t2 ?a2))))"
        by blast
      have step: "release_loop rs ft i tids tatx m = Inr (tids', tatx', m @ (tids ! i # rel))"
        using r True nle safe by (simp add: release_loop.simps [of rs ft i tids])
      note sr = swap_remove [OF iE]
      have nv: "\<not> visible rs (tatx ! i) ft" using safe by (simp add: safe2Release_iff)
      have k2: "mset (zip tids' tatx') = mset (take i ?E) +
             filter_mset (\<lambda>(p, a). visible rs a ft) (mset (drop i ?E))"
        unfolding k E2 sr(1) sr(2) [symmetric] using nv by (simp add: Ei)
      have m2: "mset (tids ! i # rel) = image_mset fst
             (filter_mset (\<lambda>(p, a). \<not> visible rs a ft) (mset (drop i ?E)))"
        unfolding sr(2) [symmetric] using nv m' by (simp add: Ei E2)
      from step l' k2 m2 show ?thesis by blast
    next
      case unsafe: False
      from "1.IH"(2) [OF True nle unsafe len] obtain tids' tatx' rel where
        r: "release_loop rs ft (i + 1) tids tatx m = Inr (tids', tatx', m @ rel)"
        and l': "length tatx' = length tids'"
        and k: "mset (zip tids' tatx') = mset (take (i + 1) ?E) +
             filter_mset (\<lambda>(p, a). visible rs a ft) (mset (drop (i + 1) ?E))"
        and m': "mset rel = image_mset fst
             (filter_mset (\<lambda>(p, a). \<not> visible rs a ft) (mset (drop (i + 1) ?E)))"
        by blast
      have step: "release_loop rs ft i tids tatx m = Inr (tids', tatx', m @ rel)"
        using r True nle unsafe by (simp add: release_loop.simps [of rs ft i tids])
      have v: "visible rs (tatx ! i) ft" using unsafe by (simp add: safe2Release_iff)
      have tE: "mset (take (i + 1) ?E) = mset (take i ?E) + {#?E ! i#}"
        using iE by (simp add: take_Suc_conv_app_nth)
      have k2: "mset (zip tids' tatx') = mset (take i ?E) +
             filter_mset (\<lambda>(p, a). visible rs a ft) (mset (drop i ?E))"
        unfolding k tE dE using v by (simp add: Ei)
      have m2: "mset rel = image_mset fst
             (filter_mset (\<lambda>(p, a). \<not> visible rs a ft) (mset (drop i ?E)))"
        unfolding m' dE using v by (simp add: Ei)
      from step l' k2 m2 show ?thesis by blast
    qed
  qed
qed

lemma bucket_entries_Cons:
  "bucket_entries ((t, txp) # ps) u =
     (if u = t then zip (ids txp) (alloctx txp) else bucket_entries ps u)"
  by (simp add: bucket_entries_def)

lemma bucket_entries_absent: "t \<notin> set (map fst ps) \<Longrightarrow> bucket_entries ps t = []"
  by (simp add: bucket_entries_def map_of_eq_None_iff [THEN iffD2])

lemma release_buckets_result:
  assumes "\<forall>(t, txp) \<in> set ps. length (alloctx txp) = length (ids txp)"
    and "distinct (map fst ps)"
  shows "\<exists>ps' rel.
     release_buckets rs ps m = Inr (ps', m @ rel) \<and>
     distinct (map fst ps') \<and> set (map fst ps') \<subseteq> set (map fst ps) \<and>
     (\<forall>(t, txp) \<in> set ps'. ids txp \<noteq> [] \<and> length (alloctx txp) = length (ids txp)) \<and>
     (\<forall>t. mset (bucket_entries ps' t) =
          filter_mset (\<lambda>(p, a). visible rs a t) (mset (bucket_entries ps t))) \<and>
     mset rel = mset (concat (map (\<lambda>(t, txp).
          map fst (filter (\<lambda>(p, a). \<not> visible rs a t) (zip (ids txp) (alloctx txp)))) ps))"
  using assms
proof (induction ps arbitrary: m)
  case Nil
  show ?case
    by (intro exI [of _ "[]"]) (simp add: bucket_entries_def)
next
  case (Cons b ps)
  obtain ft txp where b: "b = (ft, txp)" by (cases b)
  from Cons.prems b have len: "length (alloctx txp) = length (ids txp)"
    and lens: "\<forall>(t, txp) \<in> set ps. length (alloctx txp) = length (ids txp)"
    and d: "distinct (map fst ps)" and nin: "ft \<notin> set (map fst ps)"
    by auto
  let ?E = "zip (ids txp) (alloctx txp)"
  from release_loop_result [OF len, of rs ft 0 m] obtain tids' tatx' rel1 where
    r1: "release_loop rs ft 0 (ids txp) (alloctx txp) m = Inr (tids', tatx', m @ rel1)"
    and l1: "length tatx' = length tids'"
    and k1: "mset (zip tids' tatx') = filter_mset (\<lambda>(p, a). visible rs a ft) (mset ?E)"
    and m1: "mset rel1 = image_mset fst (filter_mset (\<lambda>(p, a). \<not> visible rs a ft) (mset ?E))"
    by auto
  from Cons.IH [OF lens d, of "m @ rel1"] obtain ps' rel2 where
    r2: "release_buckets rs ps (m @ rel1) = Inr (ps', (m @ rel1) @ rel2)"
    and d2: "distinct (map fst ps')" and s2: "set (map fst ps') \<subseteq> set (map fst ps)"
    and e2: "\<forall>(t, txp) \<in> set ps'. ids txp \<noteq> [] \<and> length (alloctx txp) = length (ids txp)"
    and k2: "\<forall>t. mset (bucket_entries ps' t) =
          filter_mset (\<lambda>(p, a). visible rs a t) (mset (bucket_entries ps t))"
    and m2: "mset rel2 = mset (concat (map (\<lambda>(t, txp).
          map fst (filter (\<lambda>(p, a). \<not> visible rs a t) (zip (ids txp) (alloctx txp)))) ps))"
    by blast
  let ?ps' = "if length tids' = 0 then ps'
              else (ft, txp\<lparr>ids := tids', alloctx := tatx'\<rparr>) # ps'"
  have res: "release_buckets rs (b # ps) m = Inr (?ps', m @ (rel1 @ rel2))"
    unfolding b using r1 r2 by simp
  from nin s2 have nin': "ft \<notin> set (map fst ps')" by blast
  have c1: "distinct (map fst ?ps')" using d2 nin' by simp
  have c2: "set (map fst ?ps') \<subseteq> set (map fst (b # ps))" using s2 b by auto
  have c3: "\<forall>(t, txp) \<in> set ?ps'. ids txp \<noteq> [] \<and> length (alloctx txp) = length (ids txp)"
    using e2 l1 by auto
  have c4: "mset (bucket_entries ?ps' t) =
          filter_mset (\<lambda>(p, a). visible rs a t) (mset (bucket_entries (b # ps) t))" for t
  proof (cases "t = ft")
    case True
    show ?thesis
    proof (cases "length tids' = 0")
      case True
      then have "zip tids' tatx' = []" by simp
      with k1 have "filter_mset (\<lambda>(p, a). visible rs a ft) (mset ?E) = {#}" by simp
      then show ?thesis
        using True \<open>t = ft\<close> bucket_entries_absent [OF nin']
        by (simp add: b bucket_entries_Cons)
    next
      case False
      then show ?thesis using \<open>t = ft\<close> k1 by (simp add: b bucket_entries_Cons)
    qed
  next
    case False
    then show ?thesis using k2 by (simp add: b bucket_entries_Cons)
  qed
  have c5: "mset (rel1 @ rel2) = mset (concat (map (\<lambda>(t, txp).
          map fst (filter (\<lambda>(p, a). \<not> visible rs a t) (zip (ids txp) (alloctx txp)))) (b # ps)))"
    using m1 m2 by (simp add: b)
  from res c1 c2 c3 c4 c5 show ?case by blast
qed

lemma distinct_sub_mset:
  assumes "mset xs \<subseteq># mset ys" and "distinct ys"
  shows "distinct xs"
proof -
  from assms(1) obtain C where "mset ys = mset xs + C"
    by (auto simp: mset_subset_eq_exists_conv)
  moreover obtain zs where "C = mset zs" using ex_mset [of C] by blast
  ultimately have "mset ys = mset (xs @ zs)" by simp
  then have "distinct ys = distinct (xs @ zs)" by (rule mset_eq_imp_distinct_iff)
  with assms(2) show ?thesis by simp
qed

lemma released_sub_pending:
  assumes "\<forall>(t, txp) \<in> set ps. length (alloctx txp) = length (ids txp)"
  shows "mset (concat (map (\<lambda>(t, txp).
          map fst (filter (P t) (zip (ids txp) (alloctx txp)))) ps))
         \<subseteq># mset (concat (map (\<lambda>(t, txp). ids txp) ps))"
  using assms
proof (induction ps)
  case Nil
  show ?case by simp
next
  case (Cons b ps)
  obtain t txp where b: "b = (t, txp)" by (cases b)
  from Cons.prems b have len: "length (alloctx txp) = length (ids txp)" by simp
  have "image_mset fst (filter_mset (P t) (mset (zip (ids txp) (alloctx txp))))
      \<subseteq># image_mset fst (mset (zip (ids txp) (alloctx txp)))"
    by (intro image_mset_subseteq_mono multiset_filter_subset)
  also have "image_mset fst (mset (zip (ids txp) (alloctx txp))) = mset (ids txp)"
    using len by (metis map_fst_zip mset_map)
  finally have h: "mset (map fst (filter (P t) (zip (ids txp) (alloctx txp)))) \<subseteq># mset (ids txp)"
    by simp
  from Cons have "mset (concat (map (\<lambda>(t, txp).
          map fst (filter (P t) (zip (ids txp) (alloctx txp)))) ps))
         \<subseteq># mset (concat (map (\<lambda>(t, txp). ids txp) ps))" by simp
  with h show ?case unfolding b by (simp add: subset_mset.add_mono)
qed

lemma released_set:
  assumes "distinct (map fst ps)"
  shows "set (concat (map (\<lambda>(t, txp).
          map fst (filter (\<lambda>(p, a). \<not> visible rs a t) (zip (ids txp) (alloctx txp)))) ps)) =
         {p. \<exists>t a. (p, a) \<in> set (bucket_entries ps t) \<and> \<not> visible rs a t}"
    (is "?L = ?R")
proof (rule set_eqI)
  fix p
  have eq: "(t, txp) \<in> set ps \<longleftrightarrow> map_of ps t = Some txp" for t txp
    using assms by simp
  show "p \<in> ?L \<longleftrightarrow> p \<in> ?R"
  proof
    assume "p \<in> ?L"
    then obtain t txp a where m: "(t, txp) \<in> set ps"
      and e: "(p, a) \<in> set (zip (ids txp) (alloctx txp))" and v: "\<not> visible rs a t"
      by auto
    from m have "map_of ps t = Some txp" by (simp add: eq)
    then have "bucket_entries ps t = zip (ids txp) (alloctx txp)"
      by (simp add: bucket_entries_def)
    with e have "(p, a) \<in> set (bucket_entries ps t)" by simp
    with v show "p \<in> ?R" by blast
  next
    assume "p \<in> ?R"
    then obtain t a where e: "(p, a) \<in> set (bucket_entries ps t)" and v: "\<not> visible rs a t"
      by blast
    from e obtain txp where mp: "map_of ps t = Some txp"
      and e': "(p, a) \<in> set (zip (ids txp) (alloctx txp))"
      by (cases "map_of ps t") (auto simp: bucket_entries_def)
    from mp have m: "(t, txp) \<in> set ps" by (simp add: eq)
    have "p \<in> set (map fst (filter (\<lambda>(p, a). \<not> visible rs a t) (zip (ids txp) (alloctx txp))))"
      using e' v by force
    with m show "p \<in> ?L" by force
  qed
qed

lemma bucket_entries_SomeD:
  assumes "(p, a) \<in> set (bucket_entries ps t)"
  obtains txp where "map_of ps t = Some txp" and "(t, txp) \<in> set ps"
    and "(p, a) \<in> set (zip (ids txp) (alloctx txp))" and "p \<in> set (ids txp)"
proof -
  from assms obtain txp where mp: "map_of ps t = Some txp"
    and e: "(p, a) \<in> set (zip (ids txp) (alloctx txp))"
    by (cases "map_of ps t") (auto simp: bucket_entries_def)
  from mp have "(t, txp) \<in> set ps" by (rule map_of_SomeD)
  moreover from e have "p \<in> set (ids txp)" by (rule set_zip_leftD)
  ultimately show ?thesis using mp e that by blast
qed

lemma bucket_unique:
  assumes "distinct (concat (map (\<lambda>(t, txp). ids txp) ps))"
    and "(t, txp) \<in> set ps" and "(t', txp') \<in> set ps"
    and "p \<in> set (ids txp)" and "p \<in> set (ids txp')"
  shows "t = t'"
  using assms
proof (induction ps)
  case Nil
  then show ?case by simp
next
  case (Cons b ps)
  obtain t0 txp0 where b: "b = (t0, txp0)" by (cases b)
  from Cons.prems(1) have d: "distinct (concat (map (\<lambda>(t, txp). ids txp) ps))"
    and dj: "set (ids txp0) \<inter> set (concat (map (\<lambda>(t, txp). ids txp) ps)) = {}"
    unfolding b by simp_all
  have inrest: "p \<in> set (concat (map (\<lambda>(t, txp). ids txp) ps))"
    if "(u, txq) \<in> set ps" "p \<in> set (ids txq)" for u txq
    using that by force
  consider "(t, txp) = b" "(t', txp') = b" | "(t, txp) = b" "(t', txp') \<in> set ps"
    | "(t, txp) \<in> set ps" "(t', txp') = b" | "(t, txp) \<in> set ps" "(t', txp') \<in> set ps"
    using Cons.prems(2,3) by auto
  then show ?case
  proof cases
    case 1
    then show ?thesis by (simp add: b)
  next
    case 2
    from inrest [OF 2(2) Cons.prems(5)] 2(1) Cons.prems(4) dj show ?thesis
      unfolding b by auto
  next
    case 3
    from inrest [OF 3(1) Cons.prems(4)] 3(2) Cons.prems(5) dj show ?thesis
      unfolding b by auto
  next
    case 4
    from Cons.IH [OF d 4 Cons.prems(4,5)] show ?thesis .
  qed
qed

lemma zip_unique:
  assumes "distinct xs" and "(x, y) \<in> set (zip xs ys)" and "(x, y') \<in> set (zip xs ys)"
  shows "y = y'"
proof -
  have "distinct (map fst (zip xs ys))"
    using assms(1) by (simp add: map_fst_zip_take)
  from map_of_is_SomeI [OF this assms(2)] map_of_is_SomeI [OF this assms(3)]
  show ?thesis by simp
qed

lemma entry_unique:
  assumes "distinct (concat (map (\<lambda>(t, txp). ids txp) ps))"
    and "(p, a) \<in> set (bucket_entries ps t)" and "(p, a') \<in> set (bucket_entries ps t')"
  shows "t = t' \<and> a = a'"
proof -
  from assms(2) obtain txp where 1: "map_of ps t = Some txp" "(t, txp) \<in> set ps"
    "(p, a) \<in> set (zip (ids txp) (alloctx txp))" "p \<in> set (ids txp)"
    by (rule bucket_entries_SomeD)
  from assms(3) obtain txp' where 2: "map_of ps t' = Some txp'" "(t', txp') \<in> set ps"
    "(p, a') \<in> set (zip (ids txp') (alloctx txp'))" "p \<in> set (ids txp')"
    by (rule bucket_entries_SomeD)
  from bucket_unique [OF assms(1) 1(2) 2(2) 1(4) 2(4)] have t: "t = t'" .
  with 1(1) 2(1) have x: "txp' = txp" by simp
  have "set (ids txp) \<subseteq> set (concat (map (\<lambda>(t, txp). ids txp) ps))"
    using 1(2) by force
  have d: "distinct (ids txp)"
    using assms(1) 1(2) by (induction ps) auto
  from zip_unique [OF d 1(3)] 2(3) x have "a = a'" by simp
  with t show ?thesis by simp
qed

text \<open>
  Claim C2.  In a manager that satisfies the invariants of the span structures and of the
  pending table, \<open>release\<close> returns, and a pending entry \<open>(id, a)\<close> of writer \<open>f\<close> has
  its id among the free ids afterwards if and only if no open reader \<open>r\<close> has
  \<open>a \<le> r < f\<close>: the free ids are the former free ids and the ids of these entries.  The
  entries that some reader can see are what remains of each bucket, and no bucket without
  entries remains in the pending table.
\<close>
theorem release_effect:
  assumes "spans_ok f" and "pending_ok f"
  shows "\<exists>f'. release rs f = Inr f' \<and>
     set (hashmapGetFreePageIDs f') =
       set (hashmapGetFreePageIDs f) \<union>
       {p. \<exists>t a. (p, a) \<in> set (bucket_entries (pending f) t) \<and> \<not> visible rs a t} \<and>
     (\<forall>t. mset (bucket_entries (pending f') t) =
          filter_mset (\<lambda>(p, a). visible rs a t) (mset (bucket_entries (pending f) t))) \<and>
     (\<forall>(t, txp) \<in> set (pending f'). ids txp \<noteq> []) \<and>
     (\<forall>t p a. (p, a) \<in> set (bucket_entries (pending f) t) \<longrightarrow>
        (p \<in> set (hashmapGetFreePageIDs f') \<longleftrightarrow> \<not> visible rs a t))"
proof -
  from assms(2) have lens: "\<forall>(t, txp) \<in> set (pending f). length (alloctx txp) = length (ids txp)"
    and d: "distinct (map fst (pending f))"
    and dp: "distinct (pending_ids f)"
    and disj: "set (pending_ids f) \<inter> set (hashmapGetFreePageIDs f) = {}"
    unfolding pending_ok_def by blast+
  from release_buckets_result [OF lens d, of rs "[]"] obtain ps' rel where
    rb: "release_buckets rs (pending f) [] = Inr (ps', rel)"
    and e: "\<forall>(t, txp) \<in> set ps'. ids txp \<noteq> [] \<and> length (alloctx txp) = length (ids txp)"
    and k: "\<forall>t. mset (bucket_entries ps' t) =
          filter_mset (\<lambda>(p, a). visible rs a t) (mset (bucket_entries (pending f) t))"
    and m: "mset rel = mset (concat (map (\<lambda>(t, txp).
          map fst (filter (\<lambda>(p, a). \<not> visible rs a t) (zip (ids txp) (alloctx txp)))) (pending f)))"
    by auto
  let ?g = "f\<lparr>pending := ps'\<rparr>"
  let ?f' = "hashmapMergeSpans rel ?g"
  have r: "release rs f = Inr ?f'" by (simp add: release_def rb)
  have sub: "mset rel \<subseteq># mset (pending_ids f)"
    unfolding m pending_ids_def by (rule released_sub_pending [OF lens])
  have drel: "distinct rel"
    using sub dp by (rule distinct_sub_mset)
  from set_mset_mono [OF sub] have "set rel \<subseteq> set (pending_ids f)" by simp
  with disj have disj': "set rel \<inter> set (hashmapGetFreePageIDs ?g) = {}"
    by (auto simp: hashmapGetFreePageIDs_def)
  have fg: "forwardMap ?g = forwardMap f" "backwardMap ?g = backwardMap f" by simp_all
  have ok: "spans_ok ?g" using assms(1) unfolding spans_ok_def fg .
  note M = merge_spans_result [OF ok drel disj']
  have srel: "set rel =
      {p. \<exists>t a. (p, a) \<in> set (bucket_entries (pending f) t) \<and> \<not> visible rs a t}"
  proof -
    from m have "set_mset (mset rel) = set_mset (mset (concat (map (\<lambda>(t, txp).
          map fst (filter (\<lambda>(p, a). \<not> visible rs a t) (zip (ids txp) (alloctx txp)))) (pending f))))"
      by (rule arg_cong)
    then show ?thesis unfolding set_mset_mset released_set [OF d] .
  qed
  have g: "hashmapGetFreePageIDs ?g = hashmapGetFreePageIDs f"
    by (simp add: hashmapGetFreePageIDs_def)
  have 1: "set (hashmapGetFreePageIDs ?f') =
       set (hashmapGetFreePageIDs f) \<union>
       {p. \<exists>t a. (p, a) \<in> set (bucket_entries (pending f) t) \<and> \<not> visible rs a t}"
    using M unfolding g srel by blast
  have p: "pending ?f' = ps'" using M by simp
  have 2: "\<forall>t. mset (bucket_entries (pending ?f') t) =
          filter_mset (\<lambda>(p, a). visible rs a t) (mset (bucket_entries (pending f) t))"
    unfolding p by (rule k)
  have 3: "\<forall>(t, txp) \<in> set (pending ?f'). ids txp \<noteq> []"
    unfolding p using e by blast
  have 4: "p \<in> set (hashmapGetFreePageIDs ?f') \<longleftrightarrow> \<not> visible rs a t"
    if en: "(p, a) \<in> set (bucket_entries (pending f) t)" for t p a
  proof
    assume "\<not> visible rs a t"
    with en show "p \<in> set (hashmapGetFreePageIDs ?f')" unfolding 1 by blast
  next
    assume "p \<in> set (hashmapGetFreePageIDs ?f')"
    moreover from en obtain txp where "(t, txp) \<in> set (pending f)" "p \<in> set (ids txp)"
      by (rule bucket_entries_SomeD)
    then have "p \<in> set (pending_ids f)" unfolding pending_ids_def by force
    with disj have "p \<notin> set (hashmapGetFreePageIDs f)" by blast
    ultimately obtain t' a' where e': "(p, a') \<in> set (bucket_entries (pending f) t')"
      and v: "\<not> visible rs a' t'" unfolding 1 by blast
    from entry_unique [OF dp [unfolded pending_ids_def] en e'] v
    show "\<not> visible rs a t" by simp
  qed
  from r 1 2 3 4 show ?thesis by blast
qed

text \<open>Scenario 3 of the spec: writer 10 has freed page 100 (allocated by 3) and page 101
  (allocated by 8); reader 5 is open.\<close>
theorem release_effect_witness:
  "spans_ok ex_release \<and> pending_ok ex_release \<and>
   release [5] ex_release =
     Inr (ex_release\<lparr>pending := [(10, \<lparr>ids = [100], alloctx = [3]\<rparr>)],
            freemaps := [(1, [101])], forwardMap := [(101, 1)], backwardMap := [(101, 1)],
            freePagesCount := 1\<rparr>) \<and>
   visible [5] 3 10 \<and> \<not> visible [5] 8 10 \<and>
   (\<exists>f'. release [5] ex_release = Inr f' \<and>
      (100 \<in> set (hashmapGetFreePageIDs f') \<longleftrightarrow> \<not> visible [5] 3 10) \<and>
      (101 \<in> set (hashmapGetFreePageIDs f') \<longleftrightarrow> \<not> visible [5] 8 10))"
proof -
  have 1: "spans_ok ex_release" by (simp add: spans_ok_def ex_release_def newFreelist_def)
  have 2: "pending_ok ex_release"
    by (simp add: pending_ok_def pending_ids_def hashmapGetFreePageIDs_def ex_release_def
        newFreelist_def)
  have 3: "release [5] ex_release =
     Inr (ex_release\<lparr>pending := [(10, \<lparr>ids = [100], alloctx = [3]\<rparr>)],
            freemaps := [(1, [101])], forwardMap := [(101, 1)], backwardMap := [(101, 1)],
            freePagesCount := 1\<rparr>)"
    by (simp add: release_def release_loop.simps hashmapMergeSpans_def
        mergeWithExistingSpan_def addSpan_def ex_release_def newFreelist_def
        word_le_nat_alt word_less_nat_alt insert_commute)
  have 4: "visible [5] 3 10" "\<not> visible [5] 8 10"
    by (simp_all add: visible_def word_le_nat_alt word_less_nat_alt)
  have 5: "(100, 3) \<in> set (bucket_entries (pending ex_release) 10)"
    "(101, 8) \<in> set (bucket_entries (pending ex_release) 10)"
    by (simp_all add: bucket_entries_def ex_release_def newFreelist_def)
  from release_effect [OF 1 2, of "[5]"] 5
  have 6: "\<exists>f'. release [5] ex_release = Inr f' \<and>
      (100 \<in> set (hashmapGetFreePageIDs f') \<longleftrightarrow> \<not> visible [5] 3 10) \<and>
      (101 \<in> set (hashmapGetFreePageIDs f') \<longleftrightarrow> \<not> visible [5] 8 10)"
    by blast
  from 1 2 3 4 6 show ?thesis by blast
qed

subsection \<open>allocate\<close>

lemma fold_min_in: "fold min bs (b :: Pgid) \<in> set (b # bs)"
proof (induction bs arbitrary: b)
  case Nil
  show ?case by simp
next
  case (Cons x bs)
  have "min x b = x \<or> min x b = b" by (simp add: min_def)
  with Cons [of "min x b"] show ?case by auto
qed

lemma fold_min_le: "x \<in> set (b # bs) \<Longrightarrow> fold min bs (b :: Pgid) \<le> x"
proof (induction bs arbitrary: b x)
  case Nil
  then show ?case by simp
next
  case (Cons y bs)
  have h: "fold min bs (min y b) \<le> min y b" by (rule Cons.IH) simp
  show ?case
  proof (cases "x \<in> set bs")
    case True
    then have "fold min bs (min y b) \<le> x" by (intro Cons.IH) simp
    then show ?thesis by simp
  next
    case False
    with Cons.prems have "x = y \<or> x = b" by auto
    then have "min y b \<le> x" by auto
    with h have "fold min bs (min y b) \<le> x" by (rule order_trans)
    then show ?thesis by simp
  qed
qed

lemma bucket_iff:
  assumes "freemaps_ok f"
  shows "s \<in> set (size_bucket f m) \<longleftrightarrow> map_of (forwardMap f) s = Some m"
proof
  assume "s \<in> set (size_bucket f m)"
  then obtain b where b: "map_of (freemaps f) m = Some b" "s \<in> set b"
    by (cases "map_of (freemaps f) m") (auto simp: size_bucket_def)
  from b(1) have "(m, b) \<in> set (freemaps f)" by (rule map_of_SomeD)
  with assms b(2) show "map_of (forwardMap f) s = Some m"
    unfolding freemaps_ok_def by blast
next
  assume "map_of (forwardMap f) s = Some m"
  then have "(s, m) \<in> set (forwardMap f)" by (rule map_of_SomeD)
  with assms show "s \<in> set (size_bucket f m)" unfolding freemaps_ok_def by blast
qed

lemma candidate_sizes:
  assumes "freemaps_ok f"
  shows "set (map fst (filter (\<lambda>(m, b). n \<le> m \<and> b \<noteq> []) (freemaps f))) =
           {m. n \<le> m \<and> (\<exists>s. map_of (forwardMap f) s = Some m)}"
    (is "?L = ?R")
proof (rule set_eqI)
  fix m
  from assms have d: "distinct (map fst (freemaps f))" unfolding freemaps_ok_def by blast
  show "m \<in> ?L \<longleftrightarrow> m \<in> ?R"
  proof
    assume "m \<in> ?L"
    then obtain b where b: "(m, b) \<in> set (freemaps f)" "n \<le> m" "b \<noteq> []" by auto
    from b(3) obtain s where s: "s \<in> set b" by (cases b) auto
    from d b(1) have "map_of (freemaps f) m = Some b" by simp
    with s have "s \<in> set (size_bucket f m)" by (simp add: size_bucket_def)
    with bucket_iff [OF assms] b(2) show "m \<in> ?R" by blast
  next
    assume "m \<in> ?R"
    then obtain s where nm: "n \<le> m" and s: "map_of (forwardMap f) s = Some m" by blast
    from s bucket_iff [OF assms] have sb: "s \<in> set (size_bucket f m)" by blast
    then obtain b where b: "map_of (freemaps f) m = Some b" "s \<in> set b"
      by (cases "map_of (freemaps f) m") (auto simp: size_bucket_def)
    from b(1) have "(m, b) \<in> set (freemaps f)" by (rule map_of_SomeD)
    moreover from b(2) have "b \<noteq> []" by auto
    ultimately show "m \<in> ?L" using nm by force
  qed
qed

text \<open>
  Claim C9.  In a manager whose size buckets agree with its spans: if no span has size
  \<open>\<ge> n\<close>, \<open>allocate(tx, n)\<close> returns 0 and changes nothing.  Otherwise it returns the
  start id of a span whose size \<open>m\<close> is the smallest size \<open>\<ge> n\<close> of any span and whose
  start is the smallest among the spans of size \<open>m\<close>; that span is removed, the remainder
  \<open>(start + n, m - n)\<close> is inserted when \<open>m > n\<close>, \<open>allocs[start] = tx\<close> is recorded
  and the \<open>n\<close> ids from \<open>start\<close> on leave the cache.
\<close>
theorem allocate_smallest_fit:
  assumes "freemaps_ok f"
  shows "((\<forall>s m. map_of (forwardMap f) s = Some m \<longrightarrow> m < n) \<longrightarrow>
            hashmapAllocate txid n f = (0, f)) \<and>
         ((\<exists>s m. map_of (forwardMap f) s = Some m \<and> n \<le> m) \<longrightarrow>
            (\<exists>start m f'. hashmapAllocate txid n f = (start, f') \<and>
               map_of (forwardMap f) start = Some m \<and> n \<le> m \<and>
               (\<forall>s' m'. map_of (forwardMap f) s' = Some m' \<and> n \<le> m' \<longrightarrow>
                   m \<le> m' \<and> (m' = m \<longrightarrow> start \<le> s')) \<and>
               map_of (forwardMap f') =
                 (if n < m
                  then ((map_of (forwardMap f))(start := None))(start + of_nat n \<mapsto> m - n)
                  else (map_of (forwardMap f))(start := None)) \<and>
               allocs f' = (allocs f)(start \<mapsto> txid) \<and>
               cache f' = cache f - set (span_ids start n) \<and>
               pending f' = pending f))"
proof (intro conjI impI)
  let ?sizes = "map fst (filter (\<lambda>(m, b). n \<le> m \<and> b \<noteq> []) (freemaps f))"
  note cs = candidate_sizes [OF assms, of n]
  {
    assume "\<forall>s m. map_of (forwardMap f) s = Some m \<longrightarrow> m < n"
    then have "set ?sizes = {}" unfolding cs by fastforce
    then have "sort ?sizes = []" by (metis set_empty set_sort)
    then show "hashmapAllocate txid n f = (0, f)" by (simp add: hashmapAllocate_def)
  }
  {
    assume "\<exists>s m. map_of (forwardMap f) s = Some m \<and> n \<le> m"
    then have "set ?sizes \<noteq> {}" unfolding cs by blast
    then have "sort ?sizes \<noteq> []" by (metis set_empty set_sort)
    then obtain m rest where srt: "sort ?sizes = m # rest" by (cases "sort ?sizes") auto
    have "m \<in> set (sort ?sizes)" unfolding srt by simp
    then have min_in: "m \<in> set ?sizes" by (simp only: set_sort)
    have "sorted (sort ?sizes)" by (rule sorted_sort)
    then have "\<forall>m' \<in> set (sort ?sizes). m \<le> m'" unfolding srt by auto
    then have min_le: "\<forall>m' \<in> set ?sizes. m \<le> m'" by (simp only: set_sort)
    from min_in obtain b0 where b0: "(m, b0) \<in> set (freemaps f)" "n \<le> m" "b0 \<noteq> []" by auto
    from assms have d: "distinct (map fst (freemaps f))" unfolding freemaps_ok_def by blast
    from d b0(1) have mp: "map_of (freemaps f) m = Some b0" by simp
    from b0(3) obtain b bs where bb: "b0 = b # bs" by (cases b0) auto
    let ?start = "fold min bs b"
    have sb: "size_bucket f m = b # bs" by (simp add: size_bucket_def mp bb)
    have "?start \<in> set (size_bucket f m)" unfolding sb by (rule fold_min_in)
    then have Fs: "map_of (forwardMap f) ?start = Some m" by (simp add: bucket_iff [OF assms])
    let ?f1 = "delSpan ?start m f"
    let ?f2 = "if n < m then addSpan (?start + of_nat n) (m - n) ?f1 else ?f1"
    let ?f' = "?f2\<lparr>cache := cache ?f2 - set (span_ids ?start n),
                  allocs := (allocs ?f2)(?start \<mapsto> txid)\<rparr>"
    have res: "hashmapAllocate txid n f = (?start, ?f')"
      by (simp add: hashmapAllocate_def srt mp bb Let_def)
    have least: "m \<le> m' \<and> (m' = m \<longrightarrow> ?start \<le> s')"
      if h: "map_of (forwardMap f) s' = Some m' \<and> n \<le> m'" for s' m'
    proof
      from h have "m' \<in> set ?sizes" unfolding cs by blast
      with min_le show "m \<le> m'" by blast
      show "m' = m \<longrightarrow> ?start \<le> s'"
      proof
        assume "m' = m"
        with h have "s' \<in> set (size_bucket f m)" by (simp add: bucket_iff [OF assms])
        then show "?start \<le> s'" unfolding sb by (rule fold_min_le)
      qed
    qed
    have fwd: "map_of (forwardMap ?f') =
                 (if n < m
                  then ((map_of (forwardMap f))(?start := None))(?start + of_nat n \<mapsto> m - n)
                  else (map_of (forwardMap f))(?start := None))"
      by (simp add: addSpan_def delSpan_def update_conv' delete_conv')
    have al: "allocs ?f' = (allocs f)(?start \<mapsto> txid)"
      by (simp add: addSpan_def delSpan_def)
    have ca: "cache ?f' = cache f - set (span_ids ?start n)"
      by (simp add: addSpan_def delSpan_def)
    have pe: "pending ?f' = pending f"
      by (simp add: addSpan_def delSpan_def)
    from res Fs b0(2) least fwd al ca pe
    show "\<exists>start m f'. hashmapAllocate txid n f = (start, f') \<and>
               map_of (forwardMap f) start = Some m \<and> n \<le> m \<and>
               (\<forall>s' m'. map_of (forwardMap f) s' = Some m' \<and> n \<le> m' \<longrightarrow>
                   m \<le> m' \<and> (m' = m \<longrightarrow> start \<le> s')) \<and>
               map_of (forwardMap f') =
                 (if n < m
                  then ((map_of (forwardMap f))(start := None))(start + of_nat n \<mapsto> m - n)
                  else (map_of (forwardMap f))(start := None)) \<and>
               allocs f' = (allocs f)(start \<mapsto> txid) \<and>
               cache f' = cache f - set (span_ids start n) \<and>
               pending f' = pending f"
      by blast
  }
qed

text \<open>Scenario 4 of the spec: spans (100, 2), (200, 2) and (300, 4).  A request for 2 pages
  takes span 100, a request for 3 pages takes the first 3 pages of span 300 and leaves
  (303, 1), a request for 5 pages finds nothing.\<close>
theorem allocate_smallest_fit_witness:
  "freemaps_ok ex_alloc \<and>
   hashmapAllocate 1 2 ex_alloc =
     (100, ex_alloc\<lparr>allocs := [100 \<mapsto> 1], cache := {200, 201, 300, 301, 302, 303},
             freemaps := [(2, [200]), (4, [300])], forwardMap := [(200, 2), (300, 4)],
             backwardMap := [(201, 2), (303, 4)], freePagesCount := 6\<rparr>) \<and>
   hashmapAllocate 1 3 ex_alloc =
     (300, ex_alloc\<lparr>allocs := [300 \<mapsto> 1], cache := {100, 101, 200, 201, 303},
             freemaps := [(2, [200, 100]), (4, []), (1, [303])],
             forwardMap := [(100, 2), (200, 2), (303, 1)],
             backwardMap := [(101, 2), (201, 2), (303, 1)], freePagesCount := 5\<rparr>) \<and>
   hashmapAllocate 1 5 ex_alloc = (0, ex_alloc)"
proof -
  have 1: "freemaps_ok ex_alloc"
    by (simp add: freemaps_ok_def size_bucket_def ex_alloc_def)
  have 2: "hashmapAllocate 1 2 ex_alloc =
     (100, ex_alloc\<lparr>allocs := [100 \<mapsto> 1], cache := {200, 201, 300, 301, 302, 303},
             freemaps := [(2, [200]), (4, [300])], forwardMap := [(200, 2), (300, 4)],
             backwardMap := [(201, 2), (303, 4)], freePagesCount := 6\<rparr>)"
    by (simp add: hashmapAllocate_def delSpan_def addSpan_def span_ids_def ex_alloc_def
        upt_rec; auto)
  have 3: "hashmapAllocate 1 3 ex_alloc =
     (300, ex_alloc\<lparr>allocs := [300 \<mapsto> 1], cache := {100, 101, 200, 201, 303},
             freemaps := [(2, [200, 100]), (4, []), (1, [303])],
             forwardMap := [(100, 2), (200, 2), (303, 1)],
             backwardMap := [(101, 2), (201, 2), (303, 1)], freePagesCount := 5\<rparr>)"
    by (simp add: hashmapAllocate_def delSpan_def addSpan_def span_ids_def ex_alloc_def
        upt_rec; auto)
  have "\<forall>s m. map_of (forwardMap ex_alloc) s = Some m \<longrightarrow> m < 5"
    by (auto simp: ex_alloc_def split: if_splits)
  with allocate_smallest_fit [OF 1, of 5 1]
  have 4: "hashmapAllocate 1 5 ex_alloc = (0, ex_alloc)" by blast
  from 1 2 3 4 show ?thesis by blast
qed

end
